theory Spec2Isabelle
  imports
    Complex_Main
    "HOL-Library.Multiset"
    "HOL-Library.Char_ord"
    "HOL-Library.List_Lexorder"
begin

section \<open>Data model\<close>

text \<open>
  The settlement core of the expense tracker lives in \<^verbatim>\<open>convex/balances.ts\<close>.
  Document identifiers (\<^verbatim>\<open>Id<"members">\<close>) are strings at run time and are
  modelled as \<^typ>\<open>string\<close>. Stored monetary numbers are finite doubles, hence
  real numbers. The arithmetic on them is modelled twice. In the first model
  the operations are exact; it serves the properties that do not depend on
  rounding, and the values that JavaScript arithmetic produces from finite
  operands without being finite (\<^verbatim>\<open>NaN\<close> from \<^verbatim>\<open>undefined + x\<close>, the
  infinities and \<^verbatim>\<open>NaN\<close> from a division by zero) are modelled by \<open>jsnum\<close>
  at the places where the code can produce them. In the second model, whose
  functions carry the suffix \<open>_dbl\<close>, every operation returns the exact result
  rounded to the nearest double and overflows to an infinity, as IEEE 754
  prescribes; it serves the properties of the balance aggregator and of the
  optimizer loop that depend on rounding and overflow.
\<close>

datatype jsnum = Num real | PosInfinity | NegInfinity | NaN

datatype error = TypeError | GroupNotFound | MemberNotFound

record member =
  member_id :: string
  member_name :: string
  isActive :: bool

record splitDetail =
  memberId :: string
  detail_value :: real

record expense =
  amount :: real
  paidBy :: string
  splitAmong :: "string list"
  splitType :: string
  splitDetails :: "splitDetail list option"
  category :: "string option"

record settlement =
  fromMember :: string
  toMember :: string
  settlement_amount :: real

record memberBalance =
  mb_memberId :: string
  mb_memberName :: string
  totalPaid :: real
  totalOwes :: real
  balance :: real

text \<open>
  The entries of \<^verbatim>\<open>simplifiedDebts\<close> and of \<^verbatim>\<open>suggestedSettlements\<close> have
  the same shape. The amount of a simplified debt is computed from matrix
  cells (a \<open>jsnum\<close>), the amount of a suggestion from stored balances (a real).
\<close>

record 'n debt =
  debt_from :: string
  debt_fromName :: string
  debt_to :: string
  debt_toName :: string
  debt_amount :: 'n

record netBalance =
  nb_memberId :: string
  nb_name :: string
  nb_balance :: real

record optState =
  debtors :: "netBalance list"
  creditors :: "netBalance list"
  opt_i :: nat
  opt_j :: nat
  suggestedSettlements :: "real debt list"

record group =
  group_name :: string

record summary =
  groupName :: string
  memberCount :: nat
  totalMembers :: nat
  expenseCount :: nat
  totalExpenses :: real
  settlementCount :: nat
  totalSettled :: real
  averageExpense :: jsnum
  perPersonAverage :: jsnum

section \<open>JavaScript arithmetic\<close>

text \<open>
  \<^verbatim>\<open>Math.round(x)\<close> is \<open>\<lfloor>x + 1/2\<rfloor>\<close> (ties go up); \<open>round2\<close> is the
  expression \<^verbatim>\<open>Math.round(x * 100) / 100\<close>.
\<close>

definition Math_round :: "real \<Rightarrow> int" where
  "Math_round x = \<lfloor>x + 1 / 2\<rfloor>"

definition round2 :: "real \<Rightarrow> real" where
  "round2 x = real_of_int (Math_round (x * 100)) / 100"

fun js_neg :: "jsnum \<Rightarrow> jsnum" where
  "js_neg (Num x) = Num (- x)"
| "js_neg PosInfinity = NegInfinity"
| "js_neg NegInfinity = PosInfinity"
| "js_neg NaN = NaN"

fun js_add :: "jsnum \<Rightarrow> jsnum \<Rightarrow> jsnum" where
  "js_add (Num x) (Num y) = Num (x + y)"
| "js_add NaN _ = NaN"
| "js_add _ NaN = NaN"
| "js_add PosInfinity NegInfinity = NaN"
| "js_add NegInfinity PosInfinity = NaN"
| "js_add PosInfinity _ = PosInfinity"
| "js_add _ PosInfinity = PosInfinity"
| "js_add NegInfinity _ = NegInfinity"
| "js_add _ NegInfinity = NegInfinity"

definition js_sub :: "jsnum \<Rightarrow> jsnum \<Rightarrow> jsnum" where
  "js_sub a b = js_add a (js_neg b)"

fun js_abs :: "jsnum \<Rightarrow> jsnum" where
  "js_abs (Num x) = Num \<bar>x\<bar>"
| "js_abs PosInfinity = PosInfinity"
| "js_abs NegInfinity = PosInfinity"
| "js_abs NaN = NaN"

text \<open>\<^verbatim>\<open>a > r\<close> for a finite \<open>r\<close>; every comparison with \<^verbatim>\<open>NaN\<close> is false.\<close>

fun js_gt :: "jsnum \<Rightarrow> real \<Rightarrow> bool" where
  "js_gt (Num x) r = (x > r)"
| "js_gt PosInfinity r = True"
| "js_gt NegInfinity r = False"
| "js_gt NaN r = False"

fun js_round2 :: "jsnum \<Rightarrow> jsnum" where
  "js_round2 (Num x) = Num (round2 x)"
| "js_round2 PosInfinity = PosInfinity"
| "js_round2 NegInfinity = NegInfinity"
| "js_round2 NaN = NaN"

text \<open>
  \<^verbatim>\<open>x / n\<close> where the divisor is the length of an array, hence a
  non-negative integer: dividing by \<^verbatim>\<open>+0\<close> gives an infinity with the sign of
  \<open>x\<close>, and \<^verbatim>\<open>NaN\<close> for \<^verbatim>\<open>0 / 0\<close>.
\<close>

definition js_div :: "real \<Rightarrow> nat \<Rightarrow> jsnum" where
  "js_div x n =
     (if n \<noteq> 0 then Num (x / real n)
      else if x > 0 then PosInfinity
      else if x < 0 then NegInfinity
      else NaN)"

section \<open>Split allocator\<close>

text \<open>
  \<^verbatim>\<open>calculateExpenseSplit\<close> (balances.ts, lines 6-39). The function has no
  \<^verbatim>\<open>throw\<close>; every path returns a number. The division of the \<^verbatim>\<open>equal\<close>
  case is only reached after the \<^verbatim>\<open>includes\<close> guard, hence with a
  non-empty \<^verbatim>\<open>splitAmong\<close>. \<^verbatim>\<open>splitDetails?.find(...)\<close> is \<^verbatim>\<open>undefined\<close>
  when the optional list is absent or holds no matching entry.
\<close>

definition findDetail :: "expense \<Rightarrow> string \<Rightarrow> splitDetail option" where
  "findDetail e m =
     (case splitDetails e of
        None \<Rightarrow> None
      | Some ds \<Rightarrow> find (\<lambda>d. memberId d = m) ds)"

definition calculateExpenseSplit :: "expense \<Rightarrow> string \<Rightarrow> real" where
  "calculateExpenseSplit e m =
     (if m \<notin> set (splitAmong e) then 0
      else if splitType e = ''equal'' then
        amount e / real (length (splitAmong e))
      else if splitType e = ''exact'' then
        (case findDetail e m of None \<Rightarrow> 0 | Some d \<Rightarrow> detail_value d)
      else if splitType e = ''percentage'' then
        (case findDetail e m of
           None \<Rightarrow> 0
         | Some d \<Rightarrow> (amount e * detail_value d) / 100)
      else 0)"

section \<open>Balance aggregator\<close>

text \<open>
  \<^verbatim>\<open>getMemberBalances\<close> (balances.ts, lines 61-99). For one member the two
  \<^verbatim>\<open>for\<close> loops thread the pair of accumulators \<^verbatim>\<open>(totalPaid, totalOwes)\<close>.
\<close>

definition paidOwesExpense :: "string \<Rightarrow> expense \<Rightarrow> real \<times> real \<Rightarrow> real \<times> real" where
  "paidOwesExpense mid e acc =
     (case acc of (tPaid, tOwes) \<Rightarrow>
        ((if paidBy e = mid then tPaid + amount e else tPaid),
         tOwes + calculateExpenseSplit e mid))"

definition paidOwesSettlement :: "string \<Rightarrow> settlement \<Rightarrow> real \<times> real \<Rightarrow> real \<times> real" where
  "paidOwesSettlement mid s acc =
     (case acc of (tPaid, tOwes) \<Rightarrow>
        ((if fromMember s = mid then tPaid + settlement_amount s else tPaid),
         (if toMember s = mid then tOwes + settlement_amount s else tOwes)))"

definition paidOwes :: "string \<Rightarrow> expense list \<Rightarrow> settlement list \<Rightarrow> real \<times> real" where
  "paidOwes mid expenses settlements =
     fold (paidOwesSettlement mid) settlements
       (fold (paidOwesExpense mid) expenses (0, 0))"

definition getMemberBalances ::
  "member list \<Rightarrow> expense list \<Rightarrow> settlement list \<Rightarrow> memberBalance list" where
  "getMemberBalances members expenses settlements =
     map (\<lambda>member.
            case paidOwes (member_id member) expenses settlements of
              (tPaid, tOwes) \<Rightarrow>
                \<lparr>mb_memberId = member_id member,
                 mb_memberName = member_name member,
                 totalPaid = tPaid,
                 totalOwes = tOwes,
                 balance = tPaid - tOwes\<rparr>)
         members"

text \<open>
  Internal consistency of one expense with respect to the member ids of the
  group: payer and participants are members; an \<^verbatim>\<open>equal\<close> split has a
  non-empty \<^verbatim>\<open>splitAmong\<close> without repetition; an \<^verbatim>\<open>exact\<close> or
  \<^verbatim>\<open>percentage\<close> split has one detail entry per participant (no member id
  twice among the details, and the ids of the details are those of
  \<^verbatim>\<open>splitAmong\<close>), the values summing to the amount, respectively to 100.
\<close>

definition consistentExpense :: "string set \<Rightarrow> expense \<Rightarrow> bool" where
  "consistentExpense ids e \<longleftrightarrow>
     paidBy e \<in> ids \<and> set (splitAmong e) \<subseteq> ids \<and>
     (if splitType e = ''equal'' then splitAmong e \<noteq> [] \<and> distinct (splitAmong e)
      else if splitType e = ''exact'' then
        (case splitDetails e of
           None \<Rightarrow> False
         | Some ds \<Rightarrow> distinct (map memberId ds)
               \<and> set (map memberId ds) = set (splitAmong e)
               \<and> sum_list (map detail_value ds) = amount e)
      else if splitType e = ''percentage'' then
        (case splitDetails e of
           None \<Rightarrow> False
         | Some ds \<Rightarrow> distinct (map memberId ds)
               \<and> set (map memberId ds) = set (splitAmong e)
               \<and> sum_list (map detail_value ds) = 100)
      else False)"

section \<open>Settlement optimizer\<close>

text \<open>
  \<^verbatim>\<open>getOptimizedSettlements\<close> (balances.ts, lines 218-295). First the net
  balance of every member, accumulated in one variable, kept only when it is
  more than a cent away from zero, and rounded to cents.
\<close>

definition netExpense :: "string \<Rightarrow> expense \<Rightarrow> real \<Rightarrow> real" where
  "netExpense mid e bal =
     (if paidBy e = mid then bal + amount e else bal) - calculateExpenseSplit e mid"

definition netSettlement :: "string \<Rightarrow> settlement \<Rightarrow> real \<Rightarrow> real" where
  "netSettlement mid s bal =
     (let b1 = (if fromMember s = mid then bal + settlement_amount s else bal)
      in if toMember s = mid then b1 - settlement_amount s else b1)"

definition netBalanceOf :: "string \<Rightarrow> expense list \<Rightarrow> settlement list \<Rightarrow> real" where
  "netBalanceOf mid expenses settlements =
     fold (netSettlement mid) settlements (fold (netExpense mid) expenses 0)"

definition netBalances ::
  "member list \<Rightarrow> expense list \<Rightarrow> settlement list \<Rightarrow> netBalance list" where
  "netBalances members expenses settlements =
     concat (map (\<lambda>member.
        let bal = netBalanceOf (member_id member) expenses settlements
        in if \<bar>bal\<bar> > 0.01
           then [\<lparr>nb_memberId = member_id member,
                  nb_name = member_name member,
                  nb_balance = round2 bal\<rparr>]
           else []) members)"

text \<open>
  \<^verbatim>\<open>Array.prototype.sort\<close> with a comparator is stable, as \<open>sort_key\<close> is.
  The comparator \<^verbatim>\<open>b.balance - a.balance\<close> orders by descending balance,
  \<^verbatim>\<open>a.balance - b.balance\<close> by ascending balance.
\<close>

definition creditorsOf :: "netBalance list \<Rightarrow> netBalance list" where
  "creditorsOf nbs = sort_key (\<lambda>m. - nb_balance m) (filter (\<lambda>m. nb_balance m > 0) nbs)"

definition debtorsOf :: "netBalance list \<Rightarrow> netBalance list" where
  "debtorsOf nbs = sort_key nb_balance (filter (\<lambda>m. nb_balance m < 0) nbs)"

text \<open>
  The \<^verbatim>\<open>while\<close> loop. Its body mutates the balance of the current debtor
  and of the current creditor; no object is in both arrays (one has a
  negative, the other a positive balance), so the two arrays are modelled as
  two lists that are updated at the index.
\<close>

definition loopCond :: "optState \<Rightarrow> bool" where
  "loopCond st \<longleftrightarrow> opt_i st < length (debtors st) \<and> opt_j st < length (creditors st)"

definition optimizeStep :: "optState \<Rightarrow> optState" where
  "optimizeStep st =
     (let debtor = debtors st ! opt_i st;
          creditor = creditors st ! opt_j st;
          amt = min (- nb_balance debtor) (nb_balance creditor);
          out = (if amt > 0.01
                 then suggestedSettlements st @
                      [\<lparr>debt_from = nb_memberId debtor,
                        debt_fromName = nb_name debtor,
                        debt_to = nb_memberId creditor,
                        debt_toName = nb_name creditor,
                        debt_amount = round2 amt\<rparr>]
                 else suggestedSettlements st);
          debtor' = debtor\<lparr>nb_balance := nb_balance debtor + amt\<rparr>;
          creditor' = creditor\<lparr>nb_balance := nb_balance creditor - amt\<rparr>
      in \<lparr>debtors = (debtors st)[opt_i st := debtor'],
          creditors = (creditors st)[opt_j st := creditor'],
          opt_i = (if \<bar>nb_balance debtor'\<bar> < 0.01 then opt_i st + 1 else opt_i st),
          opt_j = (if \<bar>nb_balance creditor'\<bar> < 0.01 then opt_j st + 1 else opt_j st),
          suggestedSettlements = out\<rparr>)"

definition remaining :: "optState \<Rightarrow> nat" where
  "remaining st = (length (debtors st) - opt_i st) + (length (creditors st) - opt_j st)"

lemma optimizeStep_remaining:
  "loopCond st \<Longrightarrow> remaining (optimizeStep st) < remaining st"
  by (auto simp: loopCond_def optimizeStep_def remaining_def Let_def min_def)

function optimizeLoop :: "optState \<Rightarrow> optState" where
  "optimizeLoop st = (if loopCond st then optimizeLoop (optimizeStep st) else st)"
  by pat_completeness auto
termination
  by (relation "measure remaining") (auto simp: optimizeStep_remaining)

declare optimizeLoop.simps [simp del]

definition initState :: "netBalance list \<Rightarrow> optState" where
  "initState nbs =
     \<lparr>debtors = debtorsOf nbs, creditors = creditorsOf nbs,
      opt_i = 0, opt_j = 0, suggestedSettlements = []\<rparr>"

definition optimize :: "netBalance list \<Rightarrow> real debt list" where
  "optimize nbs = suggestedSettlements (optimizeLoop (initState nbs))"

definition getOptimizedSettlements ::
  "member list \<Rightarrow> expense list \<Rightarrow> settlement list \<Rightarrow> real debt list" where
  "getOptimizedSettlements members expenses settlements =
     optimize (netBalances members expenses settlements)"


section \<open>Debt matrix and debt simplifier\<close>

text \<open>
  \<^verbatim>\<open>getDetailedDebts\<close> (balances.ts, lines 122-195). The matrix
  \<^verbatim>\<open>debts\<close> is an object of objects: a map from member id to a row, a row
  being a map from member id to a number. Reading a property that a row does
  not have yields \<^verbatim>\<open>undefined\<close>, which \<^verbatim>\<open>+=\<close> and \<^verbatim>\<open>-=\<close> turn into
  \<^verbatim>\<open>NaN\<close>; reading a property of a row that does not exist
  (\<^verbatim>\<open>debts[x][y]\<close> with \<^verbatim>\<open>debts[x]\<close> undefined) throws a \<^verbatim>\<open>TypeError\<close>.
  Ids are document ids generated by the store: none of them is the name of a
  property that every object inherits (such as \<^verbatim>\<open>constructor\<close>), for which
  \<^verbatim>\<open>debts[x]\<close> would be defined without a row having been stored. The cells
  hold exact reals or \<^verbatim>\<open>NaN\<close>: the rounding of the accumulated cells is not
  modelled in this section.
\<close>

type_synonym row = "string \<rightharpoonup> jsnum"

type_synonym matrix = "string \<rightharpoonup> row"

definition initRow :: "member list \<Rightarrow> row" where
  "initRow members = fold (\<lambda>other r. r(member_id other \<mapsto> Num 0)) members Map.empty"

definition initDebts :: "member list \<Rightarrow> matrix" where
  "initDebts members =
     fold (\<lambda>member d. d(member_id member \<mapsto> initRow members)) members Map.empty"

definition readCell :: "row \<Rightarrow> string \<Rightarrow> jsnum" where
  "readCell r k = (case r k of None \<Rightarrow> NaN | Some v \<Rightarrow> v)"

text \<open>\<^verbatim>\<open>debts[a][b] = f(debts[a][b])\<close>, for \<^verbatim>\<open>+=\<close> and \<^verbatim>\<open>-=\<close>.\<close>

definition updateCell ::
  "(jsnum \<Rightarrow> jsnum) \<Rightarrow> matrix \<Rightarrow> string \<Rightarrow> string \<Rightarrow> error + matrix" where
  "updateCell f debts a b =
     (case debts a of
        None \<Rightarrow> Inl TypeError
      | Some r \<Rightarrow> Inr (debts(a \<mapsto> r(b \<mapsto> f (readCell r b)))))"

fun addShares :: "expense \<Rightarrow> string list \<Rightarrow> matrix \<Rightarrow> error + matrix" where
  "addShares e [] debts = Inr debts"
| "addShares e (p # ps) debts =
     (if p \<noteq> paidBy e then
        (case updateCell (\<lambda>c. js_add c (Num (calculateExpenseSplit e p))) debts p (paidBy e) of
           Inl err \<Rightarrow> Inl err
         | Inr debts' \<Rightarrow> addShares e ps debts')
      else addShares e ps debts)"

fun addExpenses :: "expense list \<Rightarrow> matrix \<Rightarrow> error + matrix" where
  "addExpenses [] debts = Inr debts"
| "addExpenses (e # es) debts =
     (case addShares e (splitAmong e) debts of
        Inl err \<Rightarrow> Inl err
      | Inr debts' \<Rightarrow> addExpenses es debts')"

fun subtractSettlements :: "settlement list \<Rightarrow> matrix \<Rightarrow> error + matrix" where
  "subtractSettlements [] debts = Inr debts"
| "subtractSettlements (s # ss) debts =
     (case updateCell (\<lambda>c. js_sub c (Num (settlement_amount s))) debts
             (fromMember s) (toMember s) of
        Inl err \<Rightarrow> Inl err
      | Inr debts' \<Rightarrow> subtractSettlements ss debts')"

definition buildDebts ::
  "member list \<Rightarrow> expense list \<Rightarrow> settlement list \<Rightarrow> error + matrix" where
  "buildDebts members expenses settlements =
     (case addExpenses expenses (initDebts members) of
        Inl err \<Rightarrow> Inl err
      | Inr debts \<Rightarrow> subtractSettlements settlements debts)"

text \<open>
  The key of an unordered pair: \<^verbatim>\<open>[a, b].sort().join("-")\<close>. The default
  sort compares strings by code units, which is the lexicographic order of
  \<^typ>\<open>string\<close>.
\<close>

fun join :: "string \<Rightarrow> string list \<Rightarrow> string" where
  "join sep [] = []"
| "join sep [x] = x"
| "join sep (x # y # ys) = x @ sep @ join sep (y # ys)"

definition pairKey :: "string \<Rightarrow> string \<Rightarrow> string" where
  "pairKey a b = join ''-'' (sort [a, b])"

text \<open>The body of the inner loop after the two \<^verbatim>\<open>continue\<close> tests.\<close>

definition netPair :: "matrix \<Rightarrow> member \<Rightarrow> member \<Rightarrow> error + jsnum debt list" where
  "netPair debts debtor creditor =
     (case debts (member_id debtor) of
        None \<Rightarrow> Inl TypeError
      | Some debtorRow \<Rightarrow>
          (case debts (member_id creditor) of
             None \<Rightarrow> Inl TypeError
           | Some creditorRow \<Rightarrow>
               let debtorOwes = readCell debtorRow (member_id creditor);
                   creditorOwes = readCell creditorRow (member_id debtor);
                   netDebt = js_sub debtorOwes creditorOwes
               in Inr (if js_gt (js_abs netDebt) 0.01 then
                         (if js_gt netDebt 0 then
                            [\<lparr>debt_from = member_id debtor,
                              debt_fromName = member_name debtor,
                              debt_to = member_id creditor,
                              debt_toName = member_name creditor,
                              debt_amount = js_round2 netDebt\<rparr>]
                          else
                            [\<lparr>debt_from = member_id creditor,
                              debt_fromName = member_name creditor,
                              debt_to = member_id debtor,
                              debt_toName = member_name debtor,
                              debt_amount = js_round2 (js_neg netDebt)\<rparr>])
                       else [])))"

fun simplifyInner ::
  "matrix \<Rightarrow> member \<Rightarrow> member list \<Rightarrow> string set \<times> jsnum debt list
     \<Rightarrow> error + string set \<times> jsnum debt list" where
  "simplifyInner debts debtor [] st = Inr st"
| "simplifyInner debts debtor (creditor # cs) (processed, out) =
     (if member_id debtor = member_id creditor then
        simplifyInner debts debtor cs (processed, out)
      else if pairKey (member_id debtor) (member_id creditor) \<in> processed then
        simplifyInner debts debtor cs (processed, out)
      else
        (case netPair debts debtor creditor of
           Inl err \<Rightarrow> Inl err
         | Inr new \<Rightarrow>
             simplifyInner debts debtor cs
               (insert (pairKey (member_id debtor) (member_id creditor)) processed,
                out @ new)))"

fun simplifyOuter ::
  "matrix \<Rightarrow> member list \<Rightarrow> member list \<Rightarrow> string set \<times> jsnum debt list
     \<Rightarrow> error + string set \<times> jsnum debt list" where
  "simplifyOuter debts members [] st = Inr st"
| "simplifyOuter debts members (debtor # ds) st =
     (case simplifyInner debts debtor members st of
        Inl err \<Rightarrow> Inl err
      | Inr st' \<Rightarrow> simplifyOuter debts members ds st')"

definition simplifyDebts :: "matrix \<Rightarrow> member list \<Rightarrow> error + jsnum debt list" where
  "simplifyDebts debts members =
     (case simplifyOuter debts members members ({}, []) of
        Inl err \<Rightarrow> Inl err
      | Inr st \<Rightarrow> Inr (snd st))"

definition getDetailedDebts ::
  "member list \<Rightarrow> expense list \<Rightarrow> settlement list \<Rightarrow> error + jsnum debt list" where
  "getDetailedDebts members expenses settlements =
     (case buildDebts members expenses settlements of
        Inl err \<Rightarrow> Inl err
      | Inr debts \<Rightarrow> simplifyDebts debts members)"

text \<open>
  The matrix and the netting rule as the specification words them: all
  ordered pairs start at 0; every participant \<open>p\<close> of an expense other than
  its payer adds \<open>shareOwed(expense, p)\<close> to \<open>matrix[p][paidBy]\<close>; every
  settlement subtracts its amount from \<open>matrix[fromMember][toMember]\<close>.
\<close>

definition spec_addExpense :: "expense \<Rightarrow> (string \<times> string \<Rightarrow> real) \<Rightarrow> string \<times> string \<Rightarrow> real" where
  "spec_addExpense e M =
     fold (\<lambda>p M. if p \<noteq> paidBy e
                  then M((p, paidBy e) := M (p, paidBy e) + calculateExpenseSplit e p)
                  else M)
          (splitAmong e) M"

definition spec_matrix :: "expense list \<Rightarrow> settlement list \<Rightarrow> string \<times> string \<Rightarrow> real" where
  "spec_matrix expenses settlements =
     fold (\<lambda>s M. M((fromMember s, toMember s) :=
                     M (fromMember s, toMember s) - settlement_amount s))
          settlements
          (fold spec_addExpense expenses (\<lambda>_. 0))"

definition spec_net :: "expense list \<Rightarrow> settlement list \<Rightarrow> string \<Rightarrow> string \<Rightarrow> real" where
  "spec_net expenses settlements a b =
     spec_matrix expenses settlements (a, b) - spec_matrix expenses settlements (b, a)"

text \<open>
  The netting rule of the specification for one pair: with
  \<open>net = matrix[A][B] - matrix[B][A]\<close>, nothing when \<open>|net| \<le> 0.01\<close>, else
  "A owes B \<open>round2(net)\<close>" when \<open>net > 0\<close> and "B owes A \<open>round2(-net)\<close>"
  otherwise; and the simplifier that visits every unordered pair once.
\<close>

definition spec_pairDebt ::
  "expense list \<Rightarrow> settlement list \<Rightarrow> member \<Rightarrow> member \<Rightarrow> jsnum debt list" where
  "spec_pairDebt expenses settlements A B =
     (let net = spec_net expenses settlements (member_id A) (member_id B)
      in if \<bar>net\<bar> \<le> 0.01 then []
         else if net > 0 then
           [\<lparr>debt_from = member_id A, debt_fromName = member_name A,
             debt_to = member_id B, debt_toName = member_name B,
             debt_amount = Num (round2 net)\<rparr>]
         else
           [\<lparr>debt_from = member_id B, debt_fromName = member_name B,
             debt_to = member_id A, debt_toName = member_name A,
             debt_amount = Num (round2 (- net))\<rparr>])"

fun pairs :: "'a list \<Rightarrow> ('a \<times> 'a) list" where
  "pairs [] = []"
| "pairs (x # xs) = map (Pair x) xs @ pairs xs"

definition spec_simplify ::
  "expense list \<Rightarrow> settlement list \<Rightarrow> member list \<Rightarrow> jsnum debt list" where
  "spec_simplify expenses settlements members =
     concat (map (\<lambda>(A, B). spec_pairDebt expenses settlements A B) (pairs members))"

text \<open>
  Auxiliary notions for the refinement proof. References are resolvable when
  every participant other than the payer, and the \<^verbatim>\<open>fromMember\<close> of every
  settlement, is the id of a member: these are the ids whose row the code
  reads. Convex document ids are alphanumeric, so they never contain the
  separator of the pair key. A matrix agrees with a real-valued one when it
  has exactly the members' rows and holds its values on all member pairs.
\<close>

definition resolvable :: "string set \<Rightarrow> expense list \<Rightarrow> settlement list \<Rightarrow> bool" where
  "resolvable ids expenses settlements \<longleftrightarrow>
     (\<forall>e\<in>set expenses. \<forall>p\<in>set (splitAmong e). p \<noteq> paidBy e \<longrightarrow> p \<in> ids)
   \<and> (\<forall>s\<in>set settlements. fromMember s \<in> ids)"

definition hyphenFree :: "string \<Rightarrow> bool" where
  "hyphenFree a \<longleftrightarrow> CHR ''-'' \<notin> set a"

definition agrees :: "string set \<Rightarrow> matrix \<Rightarrow> (string \<times> string \<Rightarrow> real) \<Rightarrow> bool" where
  "agrees ids debts M \<longleftrightarrow>
     dom debts = ids \<and>
     (\<forall>a\<in>ids. \<exists>r. debts a = Some r \<and> (\<forall>b\<in>ids. r b = Some (Num (M (a, b)))))"

definition keysOf :: "member list \<Rightarrow> member list \<Rightarrow> string set" where
  "keysOf pre members =
     {pairKey (member_id a) (member_id b) | a b.
        a \<in> set pre \<and> b \<in> set members \<and> member_id b \<noteq> member_id a}"

section \<open>Summary reporter\<close>

text \<open>
  \<^verbatim>\<open>getGroupSummary\<close> (balances.ts, lines 344-392), without the category
  breakdown. The guard of \<^verbatim>\<open>perPersonAverage\<close> tests \<^verbatim>\<open>members.length\<close>,
  the divisor is the number of active members.
\<close>

definition getGroupSummary ::
  "group option \<Rightarrow> member list \<Rightarrow> expense list \<Rightarrow> settlement list \<Rightarrow> error + summary" where
  "getGroupSummary grp members expenses settlements =
     (case grp of
        None \<Rightarrow> Inl GroupNotFound
      | Some g \<Rightarrow>
          let total = fold (\<lambda>e sum. sum + amount e) expenses 0;
              settled = fold (\<lambda>s sum. sum + settlement_amount s) settlements 0
          in Inr \<lparr>groupName = group_name g,
                  memberCount = length (filter isActive members),
                  totalMembers = length members,
                  expenseCount = length expenses,
                  totalExpenses = total,
                  settlementCount = length settlements,
                  totalSettled = settled,
                  averageExpense =
                    (if length expenses > 0 then js_div total (length expenses) else Num 0),
                  perPersonAverage =
                    (if length members > 0
                     then js_div total (length (filter isActive members))
                     else Num 0)\<rparr>)"

section \<open>IEEE-754 binary64 arithmetic\<close>

text \<open>
  JavaScript numbers are IEEE-754 binary64 values; \<^verbatim>\<open>+\<close>, \<^verbatim>\<open>-\<close>, \<^verbatim>\<open>*\<close> and
  \<^verbatim>\<open>/\<close> return the exact result rounded to the nearest double, ties going to
  the even significand. The doubles of the binade \<open>[2^k, 2^(k+1))\<close> are the
  multiples of \<open>2^(k-52)\<close>; below \<open>2^-1022\<close> the spacing stays \<open>2^-1074\<close>
  (subnormal numbers). \<open>rnd64 x\<close> is the multiple of the spacing at \<open>x\<close> that
  is nearest to \<open>x\<close>. The largest double is \<open>2^1024 - 2^971\<close>; a result that
  rounds beyond it is an infinity. The two zeros are identified. The binade
  is stated with the logarithm; once the binade of a concrete number is known,
  its rounding is evaluated by the lemmas \<open>dbl_eval\<close> and \<open>dbl_eval_big\<close>.
\<close>

definition round_even :: "real \<Rightarrow> int" where
  "round_even y =
     (let f = \<lfloor>y\<rfloor>; r = y - real_of_int f
      in if r < 1 / 2 then f
         else if r > 1 / 2 then f + 1
         else if even f then f else f + 1)"

definition expo :: "real \<Rightarrow> int" where
  "expo x = max \<lfloor>log 2 \<bar>x\<bar>\<rfloor> (- 1022)"

definition ulp :: "real \<Rightarrow> real" where
  "ulp x = 2 powr real_of_int (expo x - 52)"

definition rnd64 :: "real \<Rightarrow> real" where
  "rnd64 x = (if x = 0 then 0 else ulp x * real_of_int (round_even (x / ulp x)))"

definition maxDouble :: real where
  "maxDouble = 2 ^ 1024 - 2 ^ 971"

definition dbl :: "real \<Rightarrow> jsnum" where
  "dbl x =
     (let r = rnd64 x
      in if r > maxDouble then PosInfinity
         else if r < - maxDouble then NegInfinity
         else Num r)"

text \<open>
  The literal \<^verbatim>\<open>0.01\<close> denotes the double nearest to 1/100, which is
  \<open>5764607523034235 / 2^59\<close>.
\<close>

definition cent :: real where
  "cent = 5764607523034235 / 2 ^ 59"

text \<open>
  \<open>2^1023\<close>, about 8.99e307, is a double; a hundred times it is beyond the
  largest double.
\<close>

definition huge :: real where
  "huge = 2 ^ 1023"

text \<open>
  The operations on doubles. The right operand of every product and quotient
  of the source is finite (the literal 100, the length of an array, a stored
  detail value). \<^verbatim>\<open>Math.round\<close> of a finite double is exact, and
  \<^verbatim>\<open>Math.min\<close> returns \<^verbatim>\<open>NaN\<close> as soon as one argument is \<^verbatim>\<open>NaN\<close>.
\<close>

fun dbl_add :: "jsnum \<Rightarrow> jsnum \<Rightarrow> jsnum" where
  "dbl_add (Num x) (Num y) = dbl (x + y)"
| "dbl_add NaN _ = NaN"
| "dbl_add _ NaN = NaN"
| "dbl_add PosInfinity NegInfinity = NaN"
| "dbl_add NegInfinity PosInfinity = NaN"
| "dbl_add PosInfinity _ = PosInfinity"
| "dbl_add _ PosInfinity = PosInfinity"
| "dbl_add NegInfinity _ = NegInfinity"
| "dbl_add _ NegInfinity = NegInfinity"

definition dbl_sub :: "jsnum \<Rightarrow> jsnum \<Rightarrow> jsnum" where
  "dbl_sub a b = dbl_add a (js_neg b)"

fun dbl_mul :: "jsnum \<Rightarrow> real \<Rightarrow> jsnum" where
  "dbl_mul (Num x) y = dbl (x * y)"
| "dbl_mul PosInfinity y =
     (if y > 0 then PosInfinity else if y < 0 then NegInfinity else NaN)"
| "dbl_mul NegInfinity y =
     (if y > 0 then NegInfinity else if y < 0 then PosInfinity else NaN)"
| "dbl_mul NaN y = NaN"

fun dbl_div :: "jsnum \<Rightarrow> real \<Rightarrow> jsnum" where
  "dbl_div (Num x) y =
     (if y \<noteq> 0 then dbl (x / y)
      else if x > 0 then PosInfinity else if x < 0 then NegInfinity else NaN)"
| "dbl_div PosInfinity y = (if y \<ge> 0 then PosInfinity else NegInfinity)"
| "dbl_div NegInfinity y = (if y \<ge> 0 then NegInfinity else PosInfinity)"
| "dbl_div NaN y = NaN"

fun js_lt :: "jsnum \<Rightarrow> real \<Rightarrow> bool" where
  "js_lt (Num x) r = (x < r)"
| "js_lt PosInfinity r = False"
| "js_lt NegInfinity r = True"
| "js_lt NaN r = False"

fun js_Math_round :: "jsnum \<Rightarrow> jsnum" where
  "js_Math_round (Num x) = Num (real_of_int (Math_round x))"
| "js_Math_round PosInfinity = PosInfinity"
| "js_Math_round NegInfinity = NegInfinity"
| "js_Math_round NaN = NaN"

fun js_min :: "jsnum \<Rightarrow> jsnum \<Rightarrow> jsnum" where
  "js_min NaN _ = NaN"
| "js_min _ NaN = NaN"
| "js_min NegInfinity _ = NegInfinity"
| "js_min _ NegInfinity = NegInfinity"
| "js_min PosInfinity b = b"
| "js_min a PosInfinity = a"
| "js_min (Num x) (Num y) = Num (min x y)"

text \<open>
  \<^verbatim>\<open>Math.round(x * 100) / 100\<close> on doubles.
\<close>

definition dbl_round2 :: "jsnum \<Rightarrow> jsnum" where
  "dbl_round2 a = dbl_div (js_Math_round (dbl_mul a 100)) 100"

section \<open>Split allocator, balance aggregator and optimizer on doubles\<close>

text \<open>
  \<^verbatim>\<open>calculateExpenseSplit\<close> (lines 6-39) with the division of the equal
  split and the product and division of the percentage split rounded.
\<close>

definition calculateExpenseSplit_dbl :: "expense \<Rightarrow> string \<Rightarrow> jsnum" where
  "calculateExpenseSplit_dbl e m =
     (if m \<notin> set (splitAmong e) then Num 0
      else if splitType e = ''equal'' then
        dbl_div (Num (amount e)) (real (length (splitAmong e)))
      else if splitType e = ''exact'' then
        (case findDetail e m of None \<Rightarrow> Num 0 | Some d \<Rightarrow> Num (detail_value d))
      else if splitType e = ''percentage'' then
        (case findDetail e m of
           None \<Rightarrow> Num 0
         | Some d \<Rightarrow> dbl_div (dbl_mul (Num (amount e)) (detail_value d)) 100)
      else Num 0)"

text \<open>
  \<^verbatim>\<open>getMemberBalances\<close> (lines 61-99): the accumulators start at 0, every
  \<^verbatim>\<open>+=\<close> rounds, and so does the final subtraction.
\<close>

record memberBalanceD =
  dmb_memberId :: string
  dmb_memberName :: string
  dmb_totalPaid :: jsnum
  dmb_totalOwes :: jsnum
  dmb_balance :: jsnum

definition paidOwesExpense_dbl :: "string \<Rightarrow> expense \<Rightarrow> jsnum \<times> jsnum \<Rightarrow> jsnum \<times> jsnum" where
  "paidOwesExpense_dbl mid e acc =
     (case acc of (tPaid, tOwes) \<Rightarrow>
        ((if paidBy e = mid then dbl_add tPaid (Num (amount e)) else tPaid),
         dbl_add tOwes (calculateExpenseSplit_dbl e mid)))"

definition paidOwesSettlement_dbl ::
  "string \<Rightarrow> settlement \<Rightarrow> jsnum \<times> jsnum \<Rightarrow> jsnum \<times> jsnum" where
  "paidOwesSettlement_dbl mid s acc =
     (case acc of (tPaid, tOwes) \<Rightarrow>
        ((if fromMember s = mid then dbl_add tPaid (Num (settlement_amount s)) else tPaid),
         (if toMember s = mid then dbl_add tOwes (Num (settlement_amount s)) else tOwes)))"

definition paidOwes_dbl :: "string \<Rightarrow> expense list \<Rightarrow> settlement list \<Rightarrow> jsnum \<times> jsnum" where
  "paidOwes_dbl mid expenses settlements =
     fold (paidOwesSettlement_dbl mid) settlements
       (fold (paidOwesExpense_dbl mid) expenses (Num 0, Num 0))"

definition getMemberBalances_dbl ::
  "member list \<Rightarrow> expense list \<Rightarrow> settlement list \<Rightarrow> memberBalanceD list" where
  "getMemberBalances_dbl members expenses settlements =
     map (\<lambda>member.
            case paidOwes_dbl (member_id member) expenses settlements of
              (tPaid, tOwes) \<Rightarrow>
                \<lparr>dmb_memberId = member_id member,
                 dmb_memberName = member_name member,
                 dmb_totalPaid = tPaid,
                 dmb_totalOwes = tOwes,
                 dmb_balance = dbl_sub tPaid tOwes\<rparr>)
         members"

text \<open>
  The \<^verbatim>\<open>balance\<close> field that \<^verbatim>\<open>getMemberBalances\<close> computes for the member
  with id \<open>mid\<close>.
\<close>

definition balance_dbl :: "string \<Rightarrow> expense list \<Rightarrow> settlement list \<Rightarrow> jsnum" where
  "balance_dbl mid es ss = (case paidOwes_dbl mid es ss of (tp, tow) \<Rightarrow> dbl_sub tp tow)"

text \<open>
  Amounts and detail values as the data model has them: not negative.
\<close>

definition nonnegExpense :: "expense \<Rightarrow> bool" where
  "nonnegExpense e \<longleftrightarrow>
     0 \<le> amount e \<and>
     (case splitDetails e of None \<Rightarrow> True | Some ds \<Rightarrow> \<forall>d\<in>set ds. 0 \<le> detail_value d)"

text \<open>
  \<open>approx a x z\<close>: the double \<open>z\<close> is finite and within \<open>a\<close> of the real \<open>x\<close>.
\<close>

definition approx :: "real \<Rightarrow> real \<Rightarrow> jsnum \<Rightarrow> bool" where
  "approx a x z \<longleftrightarrow> (\<exists>v. z = Num v \<and> \<bar>v - x\<bar> \<le> a)"

text \<open>
  \<^verbatim>\<open>getOptimizedSettlements\<close> (lines 218-295) on doubles. Balances are
  \<open>jsnum\<close> values, since line 247 can overflow. \<^verbatim>\<open>Array.prototype.sort\<close> is
  stable; \<open>sortBy\<close> is the stable insertion sort for a comparator, which moves
  an element behind another only when the comparator is positive (a
  \<^verbatim>\<open>NaN\<close> comparator result counts as equal).
\<close>

record netBalanceD =
  dnb_memberId :: string
  dnb_name :: string
  dnb_balance :: jsnum

record optStateD =
  debtorsD :: "netBalanceD list"
  creditorsD :: "netBalanceD list"
  optD_i :: nat
  optD_j :: nat
  suggestedSettlementsD :: "jsnum debt list"

definition netExpense_dbl :: "string \<Rightarrow> expense \<Rightarrow> jsnum \<Rightarrow> jsnum" where
  "netExpense_dbl mid e bal =
     dbl_sub (if paidBy e = mid then dbl_add bal (Num (amount e)) else bal)
             (calculateExpenseSplit_dbl e mid)"

definition netSettlement_dbl :: "string \<Rightarrow> settlement \<Rightarrow> jsnum \<Rightarrow> jsnum" where
  "netSettlement_dbl mid s bal =
     (let b1 = (if fromMember s = mid then dbl_add bal (Num (settlement_amount s)) else bal)
      in if toMember s = mid then dbl_sub b1 (Num (settlement_amount s)) else b1)"

definition netBalanceOf_dbl :: "string \<Rightarrow> expense list \<Rightarrow> settlement list \<Rightarrow> jsnum" where
  "netBalanceOf_dbl mid expenses settlements =
     fold (netSettlement_dbl mid) settlements (fold (netExpense_dbl mid) expenses (Num 0))"

definition netBalances_dbl ::
  "member list \<Rightarrow> expense list \<Rightarrow> settlement list \<Rightarrow> netBalanceD list" where
  "netBalances_dbl members expenses settlements =
     concat (map (\<lambda>member.
        let bal = netBalanceOf_dbl (member_id member) expenses settlements
        in if js_gt (js_abs bal) cent
           then [\<lparr>dnb_memberId = member_id member,
                  dnb_name = member_name member,
                  dnb_balance = dbl_round2 bal\<rparr>]
           else []) members)"

fun insertBy :: "('a \<Rightarrow> 'a \<Rightarrow> jsnum) \<Rightarrow> 'a \<Rightarrow> 'a list \<Rightarrow> 'a list" where
  "insertBy cmp x [] = [x]"
| "insertBy cmp x (y # ys) =
     (if js_gt (cmp x y) 0 then y # insertBy cmp x ys else x # y # ys)"

definition sortBy :: "('a \<Rightarrow> 'a \<Rightarrow> jsnum) \<Rightarrow> 'a list \<Rightarrow> 'a list" where
  "sortBy cmp xs = foldr (insertBy cmp) xs []"

definition creditorsOf_dbl :: "netBalanceD list \<Rightarrow> netBalanceD list" where
  "creditorsOf_dbl nbs =
     sortBy (\<lambda>a b. dbl_sub (dnb_balance b) (dnb_balance a))
       (filter (\<lambda>m. js_gt (dnb_balance m) 0) nbs)"

definition debtorsOf_dbl :: "netBalanceD list \<Rightarrow> netBalanceD list" where
  "debtorsOf_dbl nbs =
     sortBy (\<lambda>a b. dbl_sub (dnb_balance a) (dnb_balance b))
       (filter (\<lambda>m. js_lt (dnb_balance m) 0) nbs)"

definition loopCond_dbl :: "optStateD \<Rightarrow> bool" where
  "loopCond_dbl st \<longleftrightarrow>
     optD_i st < length (debtorsD st) \<and> optD_j st < length (creditorsD st)"

definition optimizeStep_dbl :: "optStateD \<Rightarrow> optStateD" where
  "optimizeStep_dbl st =
     (let debtor = debtorsD st ! optD_i st;
          creditor = creditorsD st ! optD_j st;
          amt = js_min (js_neg (dnb_balance debtor)) (dnb_balance creditor);
          out = (if js_gt amt cent
                 then suggestedSettlementsD st @
                      [\<lparr>debt_from = dnb_memberId debtor,
                        debt_fromName = dnb_name debtor,
                        debt_to = dnb_memberId creditor,
                        debt_toName = dnb_name creditor,
                        debt_amount = dbl_round2 amt\<rparr>]
                 else suggestedSettlementsD st);
          debtor' = debtor\<lparr>dnb_balance := dbl_add (dnb_balance debtor) amt\<rparr>;
          creditor' = creditor\<lparr>dnb_balance := dbl_sub (dnb_balance creditor) amt\<rparr>
      in \<lparr>debtorsD = (debtorsD st)[optD_i st := debtor'],
          creditorsD = (creditorsD st)[optD_j st := creditor'],
          optD_i = (if js_lt (js_abs (dnb_balance debtor')) cent
                    then optD_i st + 1 else optD_i st),
          optD_j = (if js_lt (js_abs (dnb_balance creditor')) cent
                    then optD_j st + 1 else optD_j st),
          suggestedSettlementsD = out\<rparr>)"

text \<open>
  The \<^verbatim>\<open>while\<close> loop of lines 272-293. Nothing bounds its iterations a
  priori: the loop is a partial function, and \<open>None\<close> means that it does not
  return.
\<close>

partial_function (option) optimizeLoop_dbl :: "optStateD \<Rightarrow> optStateD option" where
  "optimizeLoop_dbl st =
     (if loopCond_dbl st then optimizeLoop_dbl (optimizeStep_dbl st) else Some st)"

definition getOptimizedSettlements_dbl ::
  "member list \<Rightarrow> expense list \<Rightarrow> settlement list \<Rightarrow> jsnum debt list option" where
  "getOptimizedSettlements_dbl members expenses settlements =
     map_option suggestedSettlementsD
       (optimizeLoop_dbl
          \<lparr>debtorsD = debtorsOf_dbl (netBalances_dbl members expenses settlements),
           creditorsD = creditorsOf_dbl (netBalances_dbl members expenses settlements),
           optD_i = 0, optD_j = 0, suggestedSettlementsD = []\<rparr>)"

section \<open>Properties of the split allocator\<close>

lemma findDetail_memberId:
  "findDetail e m = Some d \<Longrightarrow> memberId d = m \<and> (\<exists>ds. splitDetails e = Some ds \<and> d \<in> set ds)"
  by (auto simp: findDetail_def find_Some_iff split: option.splits)



text \<open>
  C4 (as the code has it). A split-type tag other than \<^verbatim>\<open>equal\<close>,
  \<^verbatim>\<open>exact\<close> and \<^verbatim>\<open>percentage\<close> reaches the \<^verbatim>\<open>default\<close> branch of the
  switch (or the membership guard before it): the result is the number 0 and
  no error is raised.
\<close>

theorem unrecognized_splitType_returns_zero:
  assumes "splitType e \<noteq> ''equal''"
    and "splitType e \<noteq> ''exact''"
    and "splitType e \<noteq> ''percentage''"
  shows "calculateExpenseSplit e m = 0"
  using assms by (simp add: calculateExpenseSplit_def)

theorem unrecognized_splitType_returns_zero_witness:
  "calculateExpenseSplit
     \<lparr>amount = 90, paidBy = ''A'', splitAmong = [''A'', ''B''],
      splitType = ''weighted'', splitDetails = None, category = None\<rparr> ''B'' = 0"
  using unrecognized_splitType_returns_zero
    [of "\<lparr>amount = 90, paidBy = ''A'', splitAmong = [''A'', ''B''],
      splitType = ''weighted'', splitDetails = None, category = None\<rparr>" "''B''"]
  by simp

text \<open>
  C4, counterexample to the claim as stated: for the tag \<^verbatim>\<open>shares\<close> and a
  participant of the expense, the allocator silently yields 0.
\<close>

theorem unrecognized_splitType_counterexample:
  "calculateExpenseSplit
     \<lparr>amount = 90, paidBy = ''A'', splitAmong = [''A'', ''B''],
      splitType = ''shares'', splitDetails = None, category = None\<rparr> ''A'' = 0"
  by (simp add: calculateExpenseSplit_def)

text \<open>
  C5 (as the code has it). For an \<^verbatim>\<open>equal\<close> expense a participant owes
  \<^verbatim>\<open>amount / |splitAmong|\<close>, and the divisor is at least 1 there; for an
  \<^verbatim>\<open>equal\<close> expense with an empty \<^verbatim>\<open>splitAmong\<close> the membership guard
  answers 0 for every member before any division happens.
\<close>

theorem equal_split_share:
  assumes "splitType e = ''equal''"
  shows "(m \<in> set (splitAmong e) \<longrightarrow>
            calculateExpenseSplit e m = amount e / real (length (splitAmong e))
            \<and> 1 \<le> length (splitAmong e))
       \<and> (splitAmong e = [] \<longrightarrow> calculateExpenseSplit e m = 0)"
proof -
  have "1 \<le> length (splitAmong e)" if "m \<in> set (splitAmong e)"
    using that by (cases "splitAmong e") auto
  then show ?thesis
    using assms by (auto simp: calculateExpenseSplit_def)
qed

theorem equal_split_share_witness:
  "calculateExpenseSplit
     \<lparr>amount = 90, paidBy = ''A'', splitAmong = [''A'', ''B'', ''C''],
      splitType = ''equal'', splitDetails = None, category = None\<rparr> ''B'' = 30"
  using equal_split_share
    [of "\<lparr>amount = 90, paidBy = ''A'', splitAmong = [''A'', ''B'', ''C''],
      splitType = ''equal'', splitDetails = None, category = None\<rparr>" "''B''"]
  by simp

text \<open>
  C5, counterexample to the claim as stated: an \<^verbatim>\<open>equal\<close> expense with an
  empty \<^verbatim>\<open>splitAmong\<close> does not fail; the allocator returns 0.
\<close>

theorem equal_split_empty_counterexample:
  "calculateExpenseSplit
     \<lparr>amount = 90, paidBy = ''A'', splitAmong = [],
      splitType = ''equal'', splitDetails = None, category = None\<rparr> ''A'' = 0"
  by (simp add: calculateExpenseSplit_def)

text \<open>
  C6 (as the code has it). The allocator does not clamp: its result is
  non-negative when the expense amount and every split-detail value are
  non-negative, whatever the split type.
\<close>

theorem calculateExpenseSplit_nonneg:
  assumes "0 \<le> amount e"
    and "\<forall>ds. splitDetails e = Some ds \<longrightarrow> (\<forall>d\<in>set ds. 0 \<le> detail_value d)"
  shows "0 \<le> calculateExpenseSplit e m"
proof -
  have "0 \<le> detail_value d" if "findDetail e m = Some d" for d
    using findDetail_memberId [OF that] assms(2) by auto
  then show ?thesis
    using assms(1) by (auto simp: calculateExpenseSplit_def split: option.splits)
qed

theorem calculateExpenseSplit_nonneg_witness:
  "0 \<le> calculateExpenseSplit
     \<lparr>amount = 200, paidBy = ''A'', splitAmong = [''A'', ''B''],
      splitType = ''percentage'',
      splitDetails = Some [\<lparr>memberId = ''A'', detail_value = 25\<rparr>,
                           \<lparr>memberId = ''B'', detail_value = 75\<rparr>],
      category = None\<rparr> ''B''
   \<and> calculateExpenseSplit
     \<lparr>amount = 200, paidBy = ''A'', splitAmong = [''A'', ''B''],
      splitType = ''percentage'',
      splitDetails = Some [\<lparr>memberId = ''A'', detail_value = 25\<rparr>,
                           \<lparr>memberId = ''B'', detail_value = 75\<rparr>],
      category = None\<rparr> ''B'' = 150"
  using calculateExpenseSplit_nonneg
    [of "\<lparr>amount = 200, paidBy = ''A'', splitAmong = [''A'', ''B''],
      splitType = ''percentage'',
      splitDetails = Some [\<lparr>memberId = ''A'', detail_value = 25\<rparr>,
                           \<lparr>memberId = ''B'', detail_value = 75\<rparr>],
      category = None\<rparr>" "''B''"]
  by (simp add: calculateExpenseSplit_def findDetail_def)

text \<open>
  C6, counterexample to the claim as stated: an \<^verbatim>\<open>exact\<close> expense of 10
  whose details are 15 for A and -5 for B (they sum to the amount, so the
  write path accepts them) gives B the share -5.
\<close>

theorem calculateExpenseSplit_negative_counterexample:
  "calculateExpenseSplit
     \<lparr>amount = 10, paidBy = ''A'', splitAmong = [''A'', ''B''],
      splitType = ''exact'',
      splitDetails = Some [\<lparr>memberId = ''A'', detail_value = 15\<rparr>,
                           \<lparr>memberId = ''B'', detail_value = - 5\<rparr>],
      category = None\<rparr> ''B'' < 0"
  by (simp add: calculateExpenseSplit_def findDetail_def)







section \<open>Properties of the balance aggregator\<close>

lemma paidOwesExpense_net:
  "paidOwesExpense mid e (p, ow) = (p', ow') \<Longrightarrow> p' - ow' = netExpense mid e (p - ow)"
  by (auto simp: paidOwesExpense_def netExpense_def)

lemma paidOwesSettlement_net:
  "paidOwesSettlement mid s (p, ow) = (p', ow') \<Longrightarrow> p' - ow' = netSettlement mid s (p - ow)"
  by (auto simp: paidOwesSettlement_def netSettlement_def Let_def)

lemma fold_paidOwesExpense:
  "fold (paidOwesExpense mid) es (p, ow) = (p', ow')
     \<Longrightarrow> p' - ow' = fold (netExpense mid) es (p - ow)"
proof (induction es arbitrary: p ow)
  case Nil
  then show ?case by simp
next
  case (Cons e es)
  obtain p1 ow1 where step: "paidOwesExpense mid e (p, ow) = (p1, ow1)"
    by (cases "paidOwesExpense mid e (p, ow)")
  with Cons.prems have "fold (paidOwesExpense mid) es (p1, ow1) = (p', ow')"
    by simp
  then have "p' - ow' = fold (netExpense mid) es (p1 - ow1)"
    by (rule Cons.IH)
  then show ?case
    using paidOwesExpense_net [OF step] by simp
qed

lemma fold_paidOwesSettlement:
  "fold (paidOwesSettlement mid) ss (p, ow) = (p', ow')
     \<Longrightarrow> p' - ow' = fold (netSettlement mid) ss (p - ow)"
proof (induction ss arbitrary: p ow)
  case Nil
  then show ?case by simp
next
  case (Cons s ss)
  obtain p1 ow1 where step: "paidOwesSettlement mid s (p, ow) = (p1, ow1)"
    by (cases "paidOwesSettlement mid s (p, ow)")
  with Cons.prems have "fold (paidOwesSettlement mid) ss (p1, ow1) = (p', ow')"
    by simp
  then have "p' - ow' = fold (netSettlement mid) ss (p1 - ow1)"
    by (rule Cons.IH)
  then show ?case
    using paidOwesSettlement_net [OF step] by simp
qed

lemma paidOwes_netBalanceOf:
  "paidOwes mid es ss = (p, ow) \<Longrightarrow> p - ow = netBalanceOf mid es ss"
proof -
  assume r: "paidOwes mid es ss = (p, ow)"
  obtain p1 ow1 where po: "fold (paidOwesExpense mid) es (0, 0) = (p1, ow1)"
    by (cases "fold (paidOwesExpense mid) es (0, 0)")
  have "p1 - ow1 = fold (netExpense mid) es 0"
    using fold_paidOwesExpense [OF po] by simp
  moreover have "p - ow = fold (netSettlement mid) ss (p1 - ow1)"
    using r po by (intro fold_paidOwesSettlement) (simp add: paidOwes_def)
  ultimately show ?thesis
    by (simp add: netBalanceOf_def)
qed

lemma getMemberBalances_balance:
  "map balance (getMemberBalances ms es ss)
     = map (\<lambda>m. netBalanceOf (member_id m) es ss) ms"
proof -
  have "balance (case paidOwes mid es ss of
            (tPaid, tOwes) \<Rightarrow> \<lparr>mb_memberId = mid, mb_memberName = nm,
               totalPaid = tPaid, totalOwes = tOwes, balance = tPaid - tOwes\<rparr>)
        = netBalanceOf mid es ss" for mid nm
    using paidOwes_netBalanceOf [of mid es ss] by (cases "paidOwes mid es ss") simp
  then show ?thesis
    by (simp add: getMemberBalances_def)
qed



lemma netBalances_set:
  "set (netBalances ms es ss) =
     {\<lparr>nb_memberId = member_id m, nb_name = member_name m,
       nb_balance = round2 (netBalanceOf (member_id m) es ss)\<rparr> | m.
        m \<in> set ms \<and> \<bar>netBalanceOf (member_id m) es ss\<bar> > 0.01}"
  by (auto simp: netBalances_def Let_def split: if_splits)

lemma netBalances_entry:
  "x \<in> set (netBalances ms es ss) \<Longrightarrow>
     nb_balance x = round2 (netBalanceOf (nb_memberId x) es ss)"
  by (auto simp: netBalances_set)


lemma fold_netExpense_sum:
  "fold (netExpense mid) es b
     = b + (\<Sum>e\<leftarrow>es. (if paidBy e = mid then amount e else 0) - calculateExpenseSplit e mid)"
  by (induction es arbitrary: b) (simp_all add: netExpense_def)

lemma fold_netSettlement_sum:
  "fold (netSettlement mid) ss b
     = b + (\<Sum>s\<leftarrow>ss. (if fromMember s = mid then settlement_amount s else 0)
                    - (if toMember s = mid then settlement_amount s else 0))"
  by (induction ss arbitrary: b) (simp_all add: netSettlement_def Let_def)

lemma sum_list_swap:
  "(\<Sum>m\<leftarrow>ms. (\<Sum>e\<leftarrow>es. (g e m :: real))) = (\<Sum>e\<leftarrow>es. (\<Sum>m\<leftarrow>ms. g e m))"
  by (induction es) (simp_all add: sum_list_addf)

lemma sum_list_ids:
  assumes "distinct (map member_id ms)"
  shows "(\<Sum>m\<leftarrow>ms. (h (member_id m) :: real)) = (\<Sum>k\<in>set (map member_id ms). h k)"
proof -
  have "(\<Sum>m\<leftarrow>ms. h (member_id m)) = (\<Sum>k\<leftarrow>map member_id ms. h k)"
    by (simp add: comp_def)
  also have "\<dots> = (\<Sum>k\<in>set (map member_id ms). h k)"
    using assms by (rule sum_list_distinct_conv_sum_set)
  finally show ?thesis .
qed

lemma find_distinct_detail:
  "distinct (map memberId ds) \<Longrightarrow> d \<in> set ds \<Longrightarrow>
     find (\<lambda>x. memberId x = memberId d) ds = Some d"
  by (induction ds) (auto simp: rev_image_eqI)

lemma sum_details:
  assumes "distinct (map memberId ds)"
  shows "(\<Sum>k\<in>set (map memberId ds).
            (case find (\<lambda>x. memberId x = k) ds of None \<Rightarrow> 0 | Some d \<Rightarrow> (f d :: real)))
         = (\<Sum>d\<leftarrow>ds. f d)"
proof -
  have inj: "inj_on memberId (set ds)"
    using assms by (simp add: distinct_map)
  have "(\<Sum>k\<in>set (map memberId ds).
            (case find (\<lambda>x. memberId x = k) ds of None \<Rightarrow> 0 | Some d \<Rightarrow> f d))
       = (\<Sum>d\<in>set ds.
            (case find (\<lambda>x. memberId x = memberId d) ds of None \<Rightarrow> 0 | Some d \<Rightarrow> f d))"
    using inj by (simp add: sum.reindex)
  also have "\<dots> = (\<Sum>d\<in>set ds. f d)"
    by (rule sum.cong) (simp_all add: find_distinct_detail [OF assms])
  also have "\<dots> = (\<Sum>d\<leftarrow>ds. f d)"
    using assms by (simp add: sum_list_distinct_conv_sum_set distinct_map)
  finally show ?thesis .
qed

lemma shares_sum_to_amount:
  assumes fin: "finite ids" and c: "consistentExpense ids e"
  shows "(\<Sum>k\<in>ids. calculateExpenseSplit e k) = amount e"
proof -
  have sub: "set (splitAmong e) \<subseteq> ids"
    using c by (simp add: consistentExpense_def)
  have "(\<Sum>k\<in>ids. calculateExpenseSplit e k)
      = (\<Sum>k\<in>set (splitAmong e). calculateExpenseSplit e k)"
    using sub fin
    by (intro sum.mono_neutral_right) (auto simp: calculateExpenseSplit_def)
  also have "\<dots> = amount e"
  proof -
    consider (eq) "splitType e = ''equal''" | (ex) "splitType e = ''exact''"
      | (pc) "splitType e = ''percentage''"
      using c by (auto simp: consistentExpense_def split: if_splits)
    then show ?thesis
    proof cases
      case eq
      then have ne: "splitAmong e \<noteq> []" and d: "distinct (splitAmong e)"
        using c by (simp_all add: consistentExpense_def)
      have "(\<Sum>k\<in>set (splitAmong e). calculateExpenseSplit e k)
          = (\<Sum>k\<in>set (splitAmong e). amount e / real (length (splitAmong e)))"
        by (rule sum.cong) (simp_all add: calculateExpenseSplit_def eq)
      also have "\<dots> = real (card (set (splitAmong e))) * (amount e / real (length (splitAmong e)))"
        by simp
      also have "\<dots> = amount e"
        using ne d by (simp add: distinct_card)
      finally show ?thesis .
    next
      case ex
      then obtain ds where ds: "splitDetails e = Some ds" "distinct (map memberId ds)"
        "set (map memberId ds) = set (splitAmong e)" "sum_list (map detail_value ds) = amount e"
        using c by (auto simp: consistentExpense_def split: option.splits)
      have "(\<Sum>k\<in>set (splitAmong e). calculateExpenseSplit e k)
          = (\<Sum>k\<in>set (map memberId ds).
               (case find (\<lambda>x. memberId x = k) ds of None \<Rightarrow> 0 | Some d \<Rightarrow> detail_value d))"
        unfolding ds(3)
        by (rule sum.cong) (simp_all add: calculateExpenseSplit_def ex findDetail_def ds(1))
      also have "\<dots> = (\<Sum>d\<leftarrow>ds. detail_value d)"
        by (rule sum_details [OF ds(2)])
      finally show ?thesis
        using ds(4) by simp
    next
      case pc
      then obtain ds where ds: "splitDetails e = Some ds" "distinct (map memberId ds)"
        "set (map memberId ds) = set (splitAmong e)" "sum_list (map detail_value ds) = 100"
        using c by (auto simp: consistentExpense_def split: option.splits)
      have "(\<Sum>k\<in>set (splitAmong e). calculateExpenseSplit e k)
          = (\<Sum>k\<in>set (map memberId ds).
               (case find (\<lambda>x. memberId x = k) ds of
                  None \<Rightarrow> 0 | Some d \<Rightarrow> amount e * detail_value d / 100))"
        unfolding ds(3)
        by (rule sum.cong) (simp_all add: calculateExpenseSplit_def pc findDetail_def ds(1))
      also have "\<dots> = (\<Sum>d\<leftarrow>ds. amount e * detail_value d / 100)"
        by (rule sum_details [OF ds(2)])
      also have "\<dots> = amount e * (\<Sum>d\<leftarrow>ds. detail_value d) / 100"
        by (induction ds) (simp_all add: algebra_simps add_divide_distrib)
      finally show ?thesis
        using ds(4) by simp
    qed
  qed
  finally show ?thesis .
qed

lemma expense_nets_to_zero:
  assumes d: "distinct (map member_id ms)"
    and c: "consistentExpense (set (map member_id ms)) e"
  shows "(\<Sum>m\<leftarrow>ms. (if paidBy e = member_id m then amount e else 0)
              - calculateExpenseSplit e (member_id m)) = 0"
proof -
  let ?ids = "set (map member_id ms)"
  have p: "paidBy e \<in> ?ids"
    using c by (simp add: consistentExpense_def)
  have "(\<Sum>m\<leftarrow>ms. (if paidBy e = member_id m then amount e else 0)
              - calculateExpenseSplit e (member_id m))
      = (\<Sum>k\<in>?ids. (if paidBy e = k then amount e else 0) - calculateExpenseSplit e k)"
    by (rule sum_list_ids [OF d])
  also have "\<dots> = (\<Sum>k\<in>?ids. if paidBy e = k then amount e else 0)
                  - (\<Sum>k\<in>?ids. calculateExpenseSplit e k)"
    by (rule sum_subtractf)
  also have "(\<Sum>k\<in>?ids. if paidBy e = k then amount e else 0) = amount e"
    using p by (simp add: sum.delta')
  also have "(\<Sum>k\<in>?ids. calculateExpenseSplit e k) = amount e"
    using c by (intro shares_sum_to_amount) simp_all
  finally show ?thesis by simp
qed

lemma settlement_nets_to_zero:
  assumes d: "distinct (map member_id ms)"
    and f: "fromMember s \<in> set (map member_id ms)"
    and t: "toMember s \<in> set (map member_id ms)"
  shows "(\<Sum>m\<leftarrow>ms. (if fromMember s = member_id m then settlement_amount s else 0)
              - (if toMember s = member_id m then settlement_amount s else 0)) = 0"
proof -
  let ?ids = "set (map member_id ms)"
  have "(\<Sum>m\<leftarrow>ms. (if fromMember s = member_id m then settlement_amount s else 0)
              - (if toMember s = member_id m then settlement_amount s else 0))
      = (\<Sum>k\<in>?ids. (if fromMember s = k then settlement_amount s else 0)
              - (if toMember s = k then settlement_amount s else 0))"
    by (rule sum_list_ids [OF d])
  also have "\<dots> = (\<Sum>k\<in>?ids. if fromMember s = k then settlement_amount s else 0)
                  - (\<Sum>k\<in>?ids. if toMember s = k then settlement_amount s else 0)"
    by (rule sum_subtractf)
  also have "(\<Sum>k\<in>?ids. if fromMember s = k then settlement_amount s else 0)
             = settlement_amount s"
    using f by (simp add: sum.delta')
  also have "(\<Sum>k\<in>?ids. if toMember s = k then settlement_amount s else 0)
             = settlement_amount s"
    using t by (simp add: sum.delta')
  finally show ?thesis by simp
qed

lemma sum_list_all_zero:
  "(\<And>x. x \<in> set xs \<Longrightarrow> f x = (0::real)) \<Longrightarrow> (\<Sum>x\<leftarrow>xs. f x) = 0"
  by (induction xs) simp_all

text \<open>
  The conservation argument, in exact arithmetic. Let the member ids be
  pairwise distinct, let every expense be internally consistent
  (\<open>consistentExpense\<close>: payer and participants are members, the detail
  entries match the participants one to one and sum to the amount or to 100,
  and an equal split names at least one participant and none twice), and let
  both ends of every settlement be members. Then the exact balances sum to 0.
  The balances that the code returns differ from these by rounding errors,
  which are bounded further down.
\<close>

lemma exact_balances_sum_zero:
  assumes d: "distinct (map member_id members)"
    and ce: "\<forall>e\<in>set expenses. consistentExpense (set (map member_id members)) e"
    and cs: "\<forall>s\<in>set settlements.
               fromMember s \<in> set (map member_id members)
             \<and> toMember s \<in> set (map member_id members)"
  shows "sum_list (map balance (getMemberBalances members expenses settlements)) = 0"
proof -
  let ?ge = "\<lambda>e m. (if paidBy e = member_id m then amount e else 0)
                      - calculateExpenseSplit e (member_id m)"
  let ?gs = "\<lambda>s m. (if fromMember s = member_id m then settlement_amount s else 0)
                      - (if toMember s = member_id m then settlement_amount s else 0)"
  have nb: "netBalanceOf (member_id m) expenses settlements
      = (\<Sum>e\<leftarrow>expenses. ?ge e m) + (\<Sum>s\<leftarrow>settlements. ?gs s m)" for m
    by (simp add: netBalanceOf_def fold_netSettlement_sum fold_netExpense_sum)
  have "sum_list (map balance (getMemberBalances members expenses settlements))
      = (\<Sum>m\<leftarrow>members. netBalanceOf (member_id m) expenses settlements)"
    by (simp add: getMemberBalances_balance)
  also have "\<dots> = (\<Sum>m\<leftarrow>members. (\<Sum>e\<leftarrow>expenses. ?ge e m))
                  + (\<Sum>m\<leftarrow>members. (\<Sum>s\<leftarrow>settlements. ?gs s m))"
    unfolding nb by (rule sum_list_addf)
  also have "(\<Sum>m\<leftarrow>members. (\<Sum>e\<leftarrow>expenses. ?ge e m))
           = (\<Sum>e\<leftarrow>expenses. (\<Sum>m\<leftarrow>members. ?ge e m))"
    by (rule sum_list_swap)
  also have "\<dots> = 0"
    using ce by (intro sum_list_all_zero expense_nets_to_zero [OF d]) simp
  also have "(\<Sum>m\<leftarrow>members. (\<Sum>s\<leftarrow>settlements. ?gs s m))
           = (\<Sum>s\<leftarrow>settlements. (\<Sum>m\<leftarrow>members. ?gs s m))"
    by (rule sum_list_swap)
  also have "\<dots> = 0"
    using cs by (intro sum_list_all_zero settlement_nets_to_zero [OF d]) simp_all
  finally show ?thesis by simp
qed

lemma exact_balances_sum_zero_example:
  "sum_list (map balance (getMemberBalances
      [\<lparr>member_id = ''M1'', member_name = ''Ann'', isActive = True\<rparr>,
       \<lparr>member_id = ''M2'', member_name = ''Bob'', isActive = True\<rparr>,
       \<lparr>member_id = ''M3'', member_name = ''Cy'', isActive = False\<rparr>]
      [\<lparr>amount = 100, paidBy = ''M1'', splitAmong = [''M1'', ''M2'', ''M3''],
        splitType = ''equal'', splitDetails = None, category = None\<rparr>,
       \<lparr>amount = 40, paidBy = ''M2'', splitAmong = [''M1'', ''M3''],
        splitType = ''percentage'',
        splitDetails = Some [\<lparr>memberId = ''M3'', detail_value = 25\<rparr>,
                             \<lparr>memberId = ''M1'', detail_value = 75\<rparr>],
        category = Some ''Food''\<rparr>]
      [\<lparr>fromMember = ''M2'', toMember = ''M1'', settlement_amount = 33\<rparr>])) = 0"
  by (rule exact_balances_sum_zero) (auto simp: consistentExpense_def)

text \<open>
  Why \<open>consistentExpense\<close> asks for participants without repetition: the
  equal share divides by the length of \<^verbatim>\<open>splitAmong\<close>, an array. For an equal
  split of 90 paid by A among \<^verbatim>\<open>[A, A, B]\<close> each of A and B owes 90 / 3, and
  the balances sum to 30 in exact arithmetic already.
\<close>

lemma duplicate_participant_balances:
  "sum_list (map balance (getMemberBalances
      [\<lparr>member_id = ''A'', member_name = ''Ann'', isActive = True\<rparr>,
       \<lparr>member_id = ''B'', member_name = ''Bob'', isActive = True\<rparr>]
      [\<lparr>amount = 90, paidBy = ''A'', splitAmong = [''A'', ''A'', ''B''],
        splitType = ''equal'', splitDetails = None, category = None\<rparr>]
      [])) = 30"
  by (simp add: getMemberBalances_def paidOwes_def paidOwesExpense_def
      calculateExpenseSplit_def)

section \<open>Properties of binary64 rounding\<close>

lemma round_even_close: "\<bar>real_of_int (round_even y) - y\<bar> \<le> 1 / 2"
  unfolding round_even_def Let_def by (auto; linarith)

lemma round_even_int [simp]: "round_even (real_of_int k) = k"
  by (simp add: round_even_def)

lemma ulp_pos: "0 < ulp x"
  by (simp add: ulp_def)

lemma rnd64_close: "\<bar>rnd64 x - x\<bar> \<le> ulp x / 2"
proof (cases "x = 0")
  case True
  then show ?thesis using ulp_pos [of x] by (simp add: rnd64_def)
next
  case False
  define u where "u = ulp x"
  define k where "k = real_of_int (round_even (x / ulp x))"
  have u: "0 < u" unfolding u_def by (rule ulp_pos)
  have "u * k - x = u * (k - x / u)"
    using u by (simp add: right_diff_distrib)
  then have "\<bar>u * k - x\<bar> = u * \<bar>k - x / u\<bar>"
    using u by (simp add: abs_mult)
  then have "\<bar>rnd64 x - x\<bar> = ulp x * \<bar>real_of_int (round_even (x / ulp x)) - x / ulp x\<bar>"
    using False by (simp add: rnd64_def u_def k_def)
  also have "\<dots> \<le> ulp x * (1 / 2)"
    using round_even_close [of "x / ulp x"] ulp_pos [of x] by (intro mult_left_mono) simp_all
  finally show ?thesis by simp
qed

lemma expo_bounds:
  assumes "x \<noteq> 0"
  shows "expo x = - 1022 \<or> 2 powr real_of_int (expo x) \<le> \<bar>x\<bar>"
proof -
  have pos: "0 < \<bar>x\<bar>" using assms by simp
  have "2 powr real_of_int \<lfloor>log 2 \<bar>x\<bar>\<rfloor> \<le> \<bar>x\<bar>"
    using floor_log_eq_powr_iff [of "\<bar>x\<bar>" 2 "\<lfloor>log 2 \<bar>x\<bar>\<rfloor>"] pos by simp
  then show ?thesis
    by (auto simp: expo_def max_def)
qed

lemma expoI:
  assumes "2 powr real_of_int k \<le> \<bar>x\<bar>" "\<bar>x\<bar> < 2 powr real_of_int (k + 1)" "- 1022 \<le> k"
  shows "expo x = k"
proof -
  have "0 < \<bar>x\<bar>"
    using assms(1) powr_gt_zero [of 2 "real_of_int k"] by linarith
  then have "\<lfloor>log 2 \<bar>x\<bar>\<rfloor> = k"
    using floor_log_eq_powr_iff [of "\<bar>x\<bar>" 2 k] assms(1,2) by simp
  then show ?thesis
    using assms(3) by (simp add: expo_def)
qed

lemma round_even_ge_floor: "\<lfloor>y\<rfloor> \<le> round_even y"
  by (simp add: round_even_def Let_def)

lemma round_even_le_ceiling: "round_even y \<le> \<lceil>y\<rceil>"
  unfolding round_even_def Let_def by (auto; linarith)

lemma ulp_le:
  assumes "x \<noteq> 0" "1 \<le> B" "\<bar>x\<bar> \<le> B"
  shows "ulp x / 2 \<le> B / 2 ^ 53"
proof -
  from expo_bounds [OF assms(1)] show ?thesis
  proof
    assume e: "expo x = - 1022"
    have "ulp x = 2 powr (- 1074)"
      by (simp add: ulp_def e)
    also have "\<dots> = 1 / 2 ^ 1074"
      by (simp add: powr_minus_divide flip: powr_realpow)
    finally have "ulp x / 2 = 1 / 2 ^ 1075"
      by simp
    also have "\<dots> \<le> 1 / 2 ^ 53"
      by (intro divide_left_mono power_increasing) simp_all
    also have "\<dots> \<le> B / 2 ^ 53"
      using assms(2) by (simp add: divide_right_mono)
    finally show ?thesis .
  next
    assume e: "2 powr real_of_int (expo x) \<le> \<bar>x\<bar>"
    have "ulp x = 2 powr real_of_int (expo x) / 2 ^ 52"
      by (simp add: ulp_def powr_diff flip: powr_realpow)
    then have "ulp x / 2 = 2 powr real_of_int (expo x) / 2 ^ 53"
      by simp
    also have "\<dots> \<le> \<bar>x\<bar> / 2 ^ 53"
      using e by (simp add: divide_right_mono)
    also have "\<dots> \<le> B / 2 ^ 53"
      using assms(3) by (simp add: divide_right_mono)
    finally show ?thesis .
  qed
qed

lemma maxDouble_ge: "2 ^ 1001 \<le> maxDouble"
  by (simp add: maxDouble_def)

text \<open>
  The standard model of rounding error: a result of magnitude at most \<open>B\<close>
  is finite and is rounded with an error of at most \<open>B / 2^53\<close>.
\<close>

lemma dbl_error:
  assumes "1 \<le> B" "B \<le> 2 ^ 1000" "\<bar>x\<bar> \<le> B"
  shows "\<exists>z. dbl x = Num z \<and> \<bar>z - x\<bar> \<le> B / 2 ^ 53"
proof -
  have close: "\<bar>rnd64 x - x\<bar> \<le> B / 2 ^ 53"
  proof (cases "x = 0")
    case True
    then show ?thesis using assms(1) by (simp add: rnd64_def)
  next
    case False
    show ?thesis
      using rnd64_close [of x] ulp_le [OF False assms(1,3)] by linarith
  qed
  have "B / 2 ^ 53 \<le> B"
    using assms(1) by (simp add: field_simps)
  then have "\<bar>rnd64 x\<bar> \<le> 2 * B"
    using close assms(3) by linarith
  also have "\<dots> \<le> 2 ^ 1001"
    using assms(2) by simp
  finally have "\<bar>rnd64 x\<bar> \<le> maxDouble"
    using maxDouble_ge by linarith
  then have "dbl x = Num (rnd64 x)"
    by (auto simp: dbl_def Let_def)
  with close show ?thesis by blast
qed

lemma dbl_zero [simp]: "dbl 0 = Num 0"
  by (simp add: dbl_def rnd64_def maxDouble_def)

lemma pow2_split: "2 powr real_of_int k = 2 ^ 52 * 2 powr real_of_int (k - 52)"
proof -
  have "2 powr real_of_int k = 2 powr (52 + real_of_int (k - 52))"
    by simp
  also have "\<dots> = 2 powr 52 * 2 powr real_of_int (k - 52)"
    by (rule powr_add)
  finally show ?thesis by simp
qed

lemma dbl_exact_grid:
  assumes x: "x = real_of_int m * 2 powr real_of_int (k - 52)"
    and m: "2 ^ 52 \<le> \<bar>m\<bar>" "\<bar>m\<bar> < 2 ^ 53"
    and k: "- 1022 \<le> k" "k \<le> 1023"
  shows "dbl x = Num x"
proof -
  define q where "q = 2 powr real_of_int (k - 52)"
  have q: "0 < q" by (simp add: q_def)
  have absx: "\<bar>x\<bar> = real_of_int \<bar>m\<bar> * q"
    using q by (simp add: x q_def abs_mult)
  have "real_of_int (2 ^ 52) \<le> real_of_int \<bar>m\<bar>"
    using m(1) by (simp only: of_int_le_iff)
  moreover have "real_of_int \<bar>m\<bar> < real_of_int (2 ^ 53)"
    using m(2) by (simp only: of_int_less_iff)
  moreover have "\<bar>m\<bar> \<le> 2 ^ 53 - 1"
    using m(2) by simp
  then have "real_of_int \<bar>m\<bar> \<le> real_of_int (2 ^ 53 - 1)"
    by (simp only: of_int_le_iff)
  ultimately have m': "2 ^ 52 \<le> real_of_int \<bar>m\<bar>" "real_of_int \<bar>m\<bar> < 2 ^ 53"
    "real_of_int \<bar>m\<bar> \<le> 2 ^ 53 - 1"
    by simp_all
  have lo: "2 powr real_of_int k \<le> \<bar>x\<bar>"
    unfolding absx pow2_split [of k] q_def [symmetric]
    using m'(1) q by (intro mult_right_mono) simp_all
  have "2 powr real_of_int (k + 1) = 2 * 2 powr real_of_int k"
    by (simp add: powr_add)
  also have "\<dots> = 2 ^ 53 * q"
    unfolding pow2_split [of k] q_def by simp
  finally have hi: "\<bar>x\<bar> < 2 powr real_of_int (k + 1)"
    unfolding absx using m'(2) q by simp
  have e: "expo x = k"
    using lo hi k(1) by (rule expoI)
  have u: "ulp x = q"
    by (simp add: ulp_def e q_def)
  have nz: "x \<noteq> 0"
    using lo powr_gt_zero [of 2 "real_of_int k"] by auto
  have xq: "x / q = real_of_int m"
    using q by (simp add: x q_def)
  have "rnd64 x = ulp x * real_of_int (round_even (x / ulp x))"
    using nz by (simp add: rnd64_def)
  also have "\<dots> = q * real_of_int (round_even (x / q))"
    by (simp only: u)
  also have "\<dots> = q * real_of_int m"
    by (simp only: xq round_even_int)
  also have "\<dots> = x"
    by (simp add: x q_def)
  finally have r: "rnd64 x = x" .
  have "q \<le> 2 powr 971"
    unfolding q_def using k(2) by (intro powr_mono) simp_all
  then have "q \<le> 2 ^ 971" by simp
  then have "real_of_int \<bar>m\<bar> * q \<le> (2 ^ 53 - 1) * 2 ^ 971"
    using m'(3) q by (intro mult_mono) simp_all
  also have "\<dots> = maxDouble"
    by (simp add: maxDouble_def)
  finally have "\<bar>x\<bar> \<le> maxDouble"
    unfolding absx .
  then show ?thesis
    by (auto simp: dbl_def Let_def r)
qed

lemma rnd64_overflow:
  assumes "2 ^ 1024 \<le> x"
  shows "2 ^ 1024 \<le> rnd64 x"
proof -
  have pos: "0 < x" using assms zero_less_power [of "2::real" 1024] by linarith
  have "(1024::real) \<le> log 2 x"
    using assms pos by (subst le_log_iff) simp_all
  then have "1024 \<le> \<lfloor>log 2 x\<rfloor>"
    by linarith
  then have e: "1024 \<le> expo x" and e': "expo x = \<lfloor>log 2 \<bar>x\<bar>\<rfloor>"
    using pos by (simp_all add: expo_def)
  have lo: "2 powr real_of_int (expo x) \<le> x"
    using floor_log_eq_powr_iff [of x 2 "expo x"] pos e' by simp
  define q where "q = ulp x"
  have q: "0 < q" unfolding q_def by (rule ulp_pos)
  have pe: "2 powr real_of_int (expo x) = 2 ^ 52 * q"
    unfolding q_def ulp_def by (rule pow2_split)
  then have "2 ^ 52 \<le> x / q"
    using lo q by (simp add: field_simps)
  then have "2 ^ 52 \<le> \<lfloor>x / q\<rfloor>"
    by (simp add: le_floor_iff)
  then have "(2 ^ 52 :: int) \<le> round_even (x / q)"
    using round_even_ge_floor [of "x / q"] by linarith
  then have "real_of_int (2 ^ 52) \<le> real_of_int (round_even (x / q))"
    by (simp only: of_int_le_iff)
  then have "2 ^ 52 \<le> real_of_int (round_even (x / q))"
    by simp
  then have "2 ^ 52 * q \<le> q * real_of_int (round_even (x / q))"
    using q by (simp add: mult.commute)
  then have "2 powr real_of_int (expo x) \<le> rnd64 x"
    using pos by (simp add: rnd64_def pe q_def)
  moreover have "2 powr 1024 \<le> 2 powr real_of_int (expo x)"
    using e by (intro powr_mono) simp_all
  ultimately show ?thesis by simp
qed

lemma dbl_overflow: "2 ^ 1024 \<le> x \<Longrightarrow> dbl x = PosInfinity"
  using rnd64_overflow [of x] by (simp add: dbl_def Let_def maxDouble_def)

lemma rnd64_overflow_neg:
  assumes "x \<le> - (2 ^ 1024)"
  shows "rnd64 x \<le> - (2 ^ 1024)"
proof -
  have neg: "x < 0" using assms zero_less_power [of "2::real" 1024] by linarith
  have "(1024::real) \<le> log 2 \<bar>x\<bar>"
    using assms neg by (subst le_log_iff) simp_all
  then have "1024 \<le> \<lfloor>log 2 \<bar>x\<bar>\<rfloor>"
    by linarith
  then have e: "1024 \<le> expo x" and e': "expo x = \<lfloor>log 2 \<bar>x\<bar>\<rfloor>"
    by (simp_all add: expo_def)
  have lo: "2 powr real_of_int (expo x) \<le> \<bar>x\<bar>"
    using floor_log_eq_powr_iff [of "\<bar>x\<bar>" 2 "expo x"] neg e' by simp
  define q where "q = ulp x"
  have q: "0 < q" unfolding q_def by (rule ulp_pos)
  have pe: "2 powr real_of_int (expo x) = 2 ^ 52 * q"
    unfolding q_def ulp_def by (rule pow2_split)
  then have "x / q \<le> - (2 ^ 52)"
    using lo q neg by (simp add: field_simps)
  then have "\<lceil>x / q\<rceil> \<le> - (2 ^ 52)"
    by (simp add: ceiling_le_iff)
  then have "round_even (x / q) \<le> - (2 ^ 52)"
    using round_even_le_ceiling [of "x / q"] by linarith
  then have "real_of_int (round_even (x / q)) \<le> real_of_int (- (2 ^ 52))"
    by (simp only: of_int_le_iff)
  then have "real_of_int (round_even (x / q)) \<le> - (2 ^ 52)"
    by simp
  then have "q * real_of_int (round_even (x / q)) \<le> q * (- (2 ^ 52))"
    using q by (intro mult_left_mono) simp_all
  then have "rnd64 x \<le> - (2 powr real_of_int (expo x))"
    using neg by (simp add: rnd64_def pe q_def mult.commute)
  moreover have "2 powr 1024 \<le> 2 powr real_of_int (expo x)"
    using e by (intro powr_mono) simp_all
  ultimately show ?thesis by simp
qed

lemma dbl_overflow_neg: "x \<le> - (2 ^ 1024) \<Longrightarrow> dbl x = NegInfinity"
  using rnd64_overflow_neg [of x] by (simp add: dbl_def Let_def maxDouble_def)

lemma huge_ge: "1 \<le> huge"
  by (simp add: huge_def)

lemma dbl_huge: "dbl huge = Num huge" "dbl (- huge) = Num (- huge)"
proof -
  have p: "2 powr real_of_int (1023 - 52) = 2 ^ 971"
    by simp
  have "huge = real_of_int (2 ^ 52) * 2 powr real_of_int (1023 - 52)"
    unfolding p huge_def by simp
  then show "dbl huge = Num huge"
    by (rule dbl_exact_grid) simp_all
  have "- huge = real_of_int (- (2 ^ 52)) * 2 powr real_of_int (1023 - 52)"
    unfolding p huge_def by simp
  then show "dbl (- huge) = Num (- huge)"
    by (rule dbl_exact_grid) simp_all
qed

lemma dbl_huge_100: "dbl (huge * 100) = PosInfinity" "dbl (- (huge * 100)) = NegInfinity"
  by (simp_all add: dbl_overflow dbl_overflow_neg huge_def)

lemma dbl_Num_rnd64: "dbl x = Num z \<Longrightarrow> z = rnd64 x"
  by (simp add: dbl_def Let_def split: if_splits)

text \<open>
  Evaluation of a rounding in a known binade, below and above \<open>2^52\<close>.
\<close>

lemma dbl_eval:
  fixes k :: nat
  assumes k: "k \<le> 52" and lo: "2 ^ k \<le> \<bar>x\<bar>" and hi: "\<bar>x\<bar> < 2 ^ Suc k"
    and m: "round_even (x * 2 ^ (52 - k)) = m"
  shows "dbl x = Num (real_of_int m / 2 ^ (52 - k))"
proof -
  have p1: "2 powr real_of_int (int k) = 2 ^ k"
    by (simp add: powr_realpow)
  have p2: "2 powr real_of_int (int k + 1) = 2 ^ Suc k"
  proof -
    have "real_of_int (int k + 1) = real (Suc k)" by simp
    then have "2 powr real_of_int (int k + 1) = 2 powr real (Suc k)" by (simp only:)
    also have "\<dots> = 2 ^ Suc k" by (rule powr_realpow) simp
    finally show ?thesis .
  qed
  have e: "expo x = int k"
  proof (rule expoI)
    show "2 powr real_of_int (int k) \<le> \<bar>x\<bar>" unfolding p1 by (rule lo)
    show "\<bar>x\<bar> < 2 powr real_of_int (int k + 1)" unfolding p2 by (rule hi)
    show "- 1022 \<le> int k" by simp
  qed
  define j where "j = 52 - k"
  have kj: "int k - 52 = - int j"
    using k by (simp add: j_def)
  have q1: "2 powr real_of_int (int k - 52) = 2 powr (- real j)"
    unfolding kj by simp
  have q2: "2 powr (- real j) = inverse (2 powr real j)"
    by (rule powr_minus)
  have q3: "2 powr real j = 2 ^ j"
    by (rule powr_realpow) simp
  have "ulp x = 2 powr (- real j)"
    unfolding ulp_def e by (rule q1)
  also have "\<dots> = inverse (2 ^ j)"
    unfolding q2 q3 ..
  finally have u: "ulp x = 1 / 2 ^ (52 - k)"
    unfolding j_def by (simp only: inverse_eq_divide)
  have "(0::real) < 2 ^ k"
    by simp
  then have "0 < \<bar>x\<bar>"
    using lo by linarith
  then have x0: "x \<noteq> 0"
    by simp
  have r: "rnd64 x = real_of_int m / 2 ^ (52 - k)"
    using x0 m unfolding rnd64_def u by simp
  have "(2::real) ^ Suc k \<le> 2 ^ 1000"
    using k by (intro power_increasing) simp_all
  then have "\<bar>x\<bar> \<le> 2 ^ 1000"
    using hi by linarith
  from dbl_error [OF _ _ this] obtain z where z: "dbl x = Num z"
    by auto
  from dbl_Num_rnd64 [OF z] show ?thesis
    using z r by simp
qed

lemma dbl_eval_big:
  fixes k :: nat
  assumes k: "52 \<le> k" "k \<le> 999" and lo: "2 ^ k \<le> \<bar>x\<bar>" and hi: "\<bar>x\<bar> < 2 ^ Suc k"
    and m: "round_even (x / 2 ^ (k - 52)) = m"
  shows "dbl x = Num (real_of_int m * 2 ^ (k - 52))"
proof -
  have p1: "2 powr real_of_int (int k) = 2 ^ k"
    by (simp add: powr_realpow)
  have p2: "2 powr real_of_int (int k + 1) = 2 ^ Suc k"
  proof -
    have "real_of_int (int k + 1) = real (Suc k)" by simp
    then have "2 powr real_of_int (int k + 1) = 2 powr real (Suc k)" by (simp only:)
    also have "\<dots> = 2 ^ Suc k" by (rule powr_realpow) simp
    finally show ?thesis .
  qed
  have e: "expo x = int k"
  proof (rule expoI)
    show "2 powr real_of_int (int k) \<le> \<bar>x\<bar>" unfolding p1 by (rule lo)
    show "\<bar>x\<bar> < 2 powr real_of_int (int k + 1)" unfolding p2 by (rule hi)
    show "- 1022 \<le> int k" by simp
  qed
  define j where "j = k - 52"
  have kj: "int k - 52 = int j"
    using k by (simp add: j_def)
  have "ulp x = 2 powr real j"
    unfolding ulp_def e kj by simp
  also have "\<dots> = 2 ^ j"
    by (rule powr_realpow) simp
  finally have u: "ulp x = 2 ^ (k - 52)"
    unfolding j_def .
  have "(0::real) < 2 ^ k"
    by simp
  then have "0 < \<bar>x\<bar>"
    using lo by linarith
  then have x0: "x \<noteq> 0"
    by simp
  have r: "rnd64 x = real_of_int m * 2 ^ (k - 52)"
    using x0 m unfolding rnd64_def u by simp
  have "(2::real) ^ Suc k \<le> 2 ^ 1000"
    using k by (intro power_increasing) simp_all
  then have "\<bar>x\<bar> \<le> 2 ^ 1000"
    using hi by linarith
  from dbl_error [OF _ _ this] obtain z where z: "dbl x = Num z"
    by auto
  from dbl_Num_rnd64 [OF z] show ?thesis
    using z r by simp
qed

lemma powr_neg_nat: "2 powr real_of_int (- int n) = 1 / 2 ^ n"
proof -
  have "2 powr real_of_int (- int n) = 2 powr (- real n)"
    by simp
  also have "\<dots> = inverse (2 powr real n)"
    by (rule powr_minus)
  also have "2 powr real n = 2 ^ n"
    by (rule powr_realpow) simp
  finally show ?thesis
    by (simp only: inverse_eq_divide)
qed

lemma dbl_cent: "dbl (1 / 100) = Num cent"
proof -
  have lo: "2 powr real_of_int (- 7) \<le> \<bar>1 / 100 :: real\<bar>"
    using powr_neg_nat [of 7] by simp
  have hi: "\<bar>1 / 100 :: real\<bar> < 2 powr real_of_int (- 7 + 1)"
    using powr_neg_nat [of 6] by simp
  have e: "expo (1 / 100) = - 7"
    by (rule expoI [OF lo hi]) simp
  have u: "ulp (1 / 100) = 1 / 2 ^ 59"
    using powr_neg_nat [of 59] by (simp add: ulp_def e)
  have r: "rnd64 (1 / 100) = cent"
    by (simp add: rnd64_def u round_even_def cent_def)
  from dbl_error [of 1 "1 / 100"] obtain z where z: "dbl (1 / 100) = Num z"
    by auto
  from dbl_Num_rnd64 [OF z] show ?thesis
    using z r by simp
qed

section \<open>Properties of the balance aggregator on doubles\<close>

lemma approx_exact: "0 \<le> a \<Longrightarrow> approx a x (Num x)"
  by (simp add: approx_def)

lemma approx_mono: "approx a x z \<Longrightarrow> a \<le> b \<Longrightarrow> approx b x z"
  by (auto simp: approx_def)

lemma approx_dbl:
  assumes "1 \<le> B" "B \<le> 2 ^ 1000" "\<bar>x\<bar> \<le> B"
  shows "approx (B / 2 ^ 53) x (dbl x)"
  using dbl_error [OF assms] by (simp add: approx_def)

lemma approx_add:
  assumes B: "1 \<le> B" "B \<le> 2 ^ 1000"
    and x: "approx a x z" and y: "approx b y w"
    and m: "\<bar>x + y\<bar> + a + b \<le> B"
  shows "approx (a + b + B / 2 ^ 53) (x + y) (dbl_add z w)"
proof -
  from x obtain v where v: "z = Num v" "\<bar>v - x\<bar> \<le> a" by (auto simp: approx_def)
  from y obtain u where u: "w = Num u" "\<bar>u - y\<bar> \<le> b" by (auto simp: approx_def)
  have "\<bar>v + u\<bar> \<le> B"
    using v(2) u(2) m by linarith
  from dbl_error [OF B this] obtain r where r: "dbl (v + u) = Num r"
    "\<bar>r - (v + u)\<bar> \<le> B / 2 ^ 53" by blast
  have "\<bar>r - (x + y)\<bar> \<le> a + b + B / 2 ^ 53"
    using r(2) v(2) u(2) by linarith
  then show ?thesis
    by (simp add: approx_def v(1) u(1) r(1))
qed

lemma approx_sub:
  assumes B: "1 \<le> B" "B \<le> 2 ^ 1000"
    and x: "approx a x z" and y: "approx b y w"
    and m: "\<bar>x - y\<bar> + a + b \<le> B"
  shows "approx (a + b + B / 2 ^ 53) (x - y) (dbl_sub z w)"
proof -
  from y have "approx b (- y) (js_neg w)"
    by (auto simp: approx_def)
  from approx_add [OF B x this] m show ?thesis
    by (simp add: dbl_sub_def)
qed

lemma elem_le_sum_list:
  "\<forall>x\<in>set xs. 0 \<le> f x \<Longrightarrow> d \<in> set xs \<Longrightarrow> f d \<le> (\<Sum>x\<leftarrow>xs. (f x :: real))"
proof (induction xs)
  case Nil
  then show ?case by simp
next
  case (Cons x xs)
  have "0 \<le> (\<Sum>x\<leftarrow>xs. f x)"
    using Cons.prems(1) by (intro sum_list_nonneg) auto
  then show ?case
    using Cons by auto
qed

lemma detail_bounds:
  assumes c: "consistentExpense ids e" and n: "nonnegExpense e"
    and f: "findDetail e m = Some d"
  shows "0 \<le> detail_value d"
    and "splitType e = ''exact'' \<Longrightarrow> detail_value d \<le> amount e"
    and "splitType e = ''percentage'' \<Longrightarrow> detail_value d \<le> 100"
proof -
  from findDetail_memberId [OF f] obtain ds where ds: "splitDetails e = Some ds" "d \<in> set ds"
    by blast
  have nn: "\<forall>x\<in>set ds. 0 \<le> detail_value x"
    using n ds(1) by (simp add: nonnegExpense_def)
  then show "0 \<le> detail_value d"
    using ds(2) by simp
  have le: "detail_value d \<le> (\<Sum>x\<leftarrow>ds. detail_value x)"
    using nn ds(2) by (rule elem_le_sum_list)
  show "detail_value d \<le> amount e" if "splitType e = ''exact''"
    using c that ds(1) le by (simp add: consistentExpense_def)
  show "detail_value d \<le> 100" if "splitType e = ''percentage''"
    using c that ds(1) le by (simp add: consistentExpense_def)
qed

lemma share_bounds:
  assumes c: "consistentExpense ids e" and n: "nonnegExpense e"
  shows "0 \<le> calculateExpenseSplit e m" and "calculateExpenseSplit e m \<le> amount e"
proof -
  have a: "0 \<le> amount e"
    using n by (simp add: nonnegExpense_def)
  show "0 \<le> calculateExpenseSplit e m"
    using a detail_bounds(1) [OF c n]
    by (auto simp: calculateExpenseSplit_def split: option.splits)
  show "calculateExpenseSplit e m \<le> amount e"
  proof (cases "m \<in> set (splitAmong e)")
    case False
    then show ?thesis using a by (simp add: calculateExpenseSplit_def)
  next
    case True
    then have len: "1 \<le> real (length (splitAmong e))"
      by (cases "splitAmong e") auto
    consider (eq) "splitType e = ''equal''" | (ex) "splitType e = ''exact''"
      | (pc) "splitType e = ''percentage''"
      using c by (auto simp: consistentExpense_def split: if_splits)
    then show ?thesis
    proof cases
      case eq
      have "0 < real (length (splitAmong e))"
        using len by linarith
      then have "amount e / real (length (splitAmong e)) \<le> amount e / 1"
        using a len by (intro divide_left_mono) simp_all
      then show ?thesis
        using True eq by (simp add: calculateExpenseSplit_def)
    next
      case ex
      then show ?thesis
        using True a detail_bounds(2) [OF c n]
        by (auto simp: calculateExpenseSplit_def split: option.splits)
    next
      case pc
      have "amount e * detail_value d / 100 \<le> amount e" if "findDetail e m = Some d" for d
      proof -
        have "amount e * detail_value d \<le> amount e * 100"
          using a detail_bounds(3) [OF c n that pc] by (intro mult_left_mono)
        then show ?thesis by simp
      qed
      then show ?thesis
        using True a pc by (auto simp: calculateExpenseSplit_def split: option.splits)
    qed
  qed
qed

text \<open>
  The share of one member in one expense is computed with at most two
  roundings.
\<close>

lemma split_approx:
  assumes B: "1 \<le> B" "B \<le> 2 ^ 1000"
    and c: "consistentExpense ids e" and n: "nonnegExpense e"
    and v: "100 * amount e \<le> B"
  shows "approx (2 * (B / 2 ^ 53)) (calculateExpenseSplit e m) (calculateExpenseSplit_dbl e m)"
proof -
  let ?d = "B / 2 ^ 53"
  have d0: "0 \<le> ?d" using B(1) by simp
  have a: "0 \<le> amount e"
    using n by (simp add: nonnegExpense_def)
  show ?thesis
  proof (cases "m \<in> set (splitAmong e)")
    case False
    then show ?thesis
      using d0 by (simp add: calculateExpenseSplit_def calculateExpenseSplit_dbl_def approx_def)
  next
    case True
    then have len: "1 \<le> real (length (splitAmong e))"
      by (cases "splitAmong e") auto
    consider (eq) "splitType e = ''equal''" | (ex) "splitType e = ''exact''"
      | (pc) "splitType e = ''percentage''"
      using c by (auto simp: consistentExpense_def split: if_splits)
    then show ?thesis
    proof cases
      case eq
      have "0 < real (length (splitAmong e))"
        using len by linarith
      then have "amount e / real (length (splitAmong e)) \<le> amount e / 1"
        using a len by (intro divide_left_mono) simp_all
      then have "\<bar>amount e / real (length (splitAmong e))\<bar> \<le> B"
        using a v len by simp
      from approx_dbl [OF B this] have
        "approx ?d (amount e / real (length (splitAmong e)))
           (dbl (amount e / real (length (splitAmong e))))" .
      then have "approx (2 * ?d) (amount e / real (length (splitAmong e)))
           (dbl (amount e / real (length (splitAmong e))))"
        using d0 by (auto intro: approx_mono)
      moreover have "splitAmong e \<noteq> []"
        using True by auto
      ultimately show ?thesis
        using True eq
        by (simp add: calculateExpenseSplit_def calculateExpenseSplit_dbl_def)
    next
      case ex
      then show ?thesis
        using True d0
        by (auto simp: calculateExpenseSplit_def calculateExpenseSplit_dbl_def approx_def
            split: option.splits)
    next
      case pc
      show ?thesis
      proof (cases "findDetail e m")
        case None
        then show ?thesis
          using True pc d0
          by (simp add: calculateExpenseSplit_def calculateExpenseSplit_dbl_def approx_def)
      next
        case (Some d)
        have dv: "0 \<le> detail_value d" "detail_value d \<le> 100"
          using detail_bounds(1,3) [OF c n Some] pc by simp_all
        have "amount e * detail_value d \<le> amount e * 100"
          using a dv(2) by (intro mult_left_mono)
        then have "\<bar>amount e * detail_value d\<bar> \<le> B"
          using a dv(1) v by simp
        from dbl_error [OF B this] obtain w where w: "dbl (amount e * detail_value d) = Num w"
          "\<bar>w - amount e * detail_value d\<bar> \<le> ?d" by blast
        have "0 \<le> amount e * detail_value d"
          using a dv(1) by simp
        then have "\<bar>w\<bar> \<le> 100 * amount e + ?d"
          using w(2) \<open>amount e * detail_value d \<le> amount e * 100\<close>
          by linarith
        moreover have "?d \<le> B"
          using B(1) by (simp add: field_simps)
        ultimately have "\<bar>w / 100\<bar> \<le> B"
          using v by simp
        from dbl_error [OF B this] obtain r where r: "dbl (w / 100) = Num r"
          "\<bar>r - w / 100\<bar> \<le> ?d" by blast
        define dd where "dd = B / 2 ^ 53"
        define p where "p = amount e * detail_value d"
        have "\<bar>w - p\<bar> \<le> dd" "\<bar>r - w / 100\<bar> \<le> dd" "0 \<le> dd"
          using w(2) r(2) d0 by (simp_all add: dd_def p_def)
        then have "\<bar>r - p / 100\<bar> \<le> 2 * dd"
          by linarith
        then have "\<bar>r - amount e * detail_value d / 100\<bar> \<le> 2 * ?d"
          by (simp add: dd_def p_def)
        then show ?thesis
          using True pc Some w(1) r(1)
          by (simp add: calculateExpenseSplit_def calculateExpenseSplit_dbl_def approx_def)
      qed
    qed
  qed
qed

text \<open>
  The two loops of the aggregator: each expense adds at most one rounding
  error to \<^verbatim>\<open>totalPaid\<close> and three to \<^verbatim>\<open>totalOwes\<close>, each settlement at
  most one to each.
\<close>

lemma fold_expenses_approx:
  assumes B: "1 \<le> B" "B \<le> 2 ^ 1000"
  shows "\<lbrakk>\<forall>e\<in>set es. consistentExpense ids e \<and> nonnegExpense e \<and> 100 * amount e \<le> B;
          approx a P tp; approx b O' tow; 0 \<le> a; 0 \<le> b; 0 \<le> P; 0 \<le> O';
          P + (\<Sum>e\<leftarrow>es. amount e) + a + real (length es) * (B / 2 ^ 53) \<le> B;
          O' + (\<Sum>e\<leftarrow>es. amount e) + b + 3 * real (length es) * (B / 2 ^ 53) \<le> B\<rbrakk>
     \<Longrightarrow> \<exists>P1 O1 tp1 to1.
           fold (paidOwesExpense mid) es (P, O') = (P1, O1)
         \<and> fold (paidOwesExpense_dbl mid) es (tp, tow) = (tp1, to1)
         \<and> approx (a + real (length es) * (B / 2 ^ 53)) P1 tp1
         \<and> approx (b + 3 * real (length es) * (B / 2 ^ 53)) O1 to1
         \<and> 0 \<le> P1 \<and> P1 \<le> P + (\<Sum>e\<leftarrow>es. amount e)
         \<and> 0 \<le> O1 \<and> O1 \<le> O' + (\<Sum>e\<leftarrow>es. amount e)"
proof (induction es arbitrary: P O' tp tow a b)
  case Nil
  then show ?case by simp
next
  case (Cons e es)
  define dd where "dd = B / 2 ^ 53"
  define n where "n = real (length es)"
  define S where "S = (\<Sum>e\<leftarrow>es. amount e)"
  have dd0: "0 \<le> dd" using B(1) by (simp add: dd_def)
  have n0: "0 \<le> n" by (simp add: n_def)
  have nd0: "0 \<le> n * dd" using dd0 n0 by simp
  have e: "consistentExpense ids e" "nonnegExpense e" "100 * amount e \<le> B"
    using Cons.prems(1) by simp_all
  have am: "0 \<le> amount e"
    using e(2) by (simp add: nonnegExpense_def)
  have S0: "0 \<le> S"
    unfolding S_def using Cons.prems(1)
    by (intro sum_list_nonneg) (auto simp: nonnegExpense_def)
  have sh: "0 \<le> calculateExpenseSplit e mid" "calculateExpenseSplit e mid \<le> amount e"
    using share_bounds [OF e(1,2)] by simp_all
  have eqS: "(\<Sum>e\<leftarrow>e # es. amount e) = amount e + S"
    by (simp add: S_def)
  have eqn: "real (length (e # es)) * (B / 2 ^ 53) = n * dd + dd"
    unfolding dd_def [symmetric] by (simp add: n_def algebra_simps)
  have eqn3: "3 * real (length (e # es)) * (B / 2 ^ 53) = 3 * (n * dd) + 3 * dd"
    unfolding dd_def [symmetric] by (simp add: n_def algebra_simps)
  have roomP: "P + (amount e + S) + a + (n * dd + dd) \<le> B"
    using Cons.prems(8) unfolding eqS eqn .
  have roomO: "O' + (amount e + S) + b + (3 * (n * dd) + 3 * dd) \<le> B"
    using Cons.prems(9) unfolding eqS eqn3 .
  define P2 where "P2 = (if paidBy e = mid then P + amount e else P)"
  define O2 where "O2 = O' + calculateExpenseSplit e mid"
  define tp2 where "tp2 = (if paidBy e = mid then dbl_add tp (Num (amount e)) else tp)"
  define to2 where "to2 = dbl_add tow (calculateExpenseSplit_dbl e mid)"
  have apP: "approx (a + dd) P2 tp2"
  proof (cases "paidBy e = mid")
    case True
    have "\<bar>P + amount e\<bar> + a + 0 \<le> B"
      using roomP Cons.prems(6) am S0 nd0 dd0 by linarith
    from approx_add [OF B Cons.prems(2) approx_exact [of 0 "amount e"] this]
    show ?thesis
      using True by (simp add: P2_def tp2_def dd_def)
  next
    case False
    then show ?thesis
      using approx_mono [OF Cons.prems(2), of "a + dd"] dd0 by (simp add: P2_def tp2_def)
  qed
  have apO: "approx (b + 3 * dd) O2 to2"
  proof -
    have "\<bar>O' + calculateExpenseSplit e mid\<bar> + b + 2 * dd \<le> B"
      using roomO Cons.prems(7) sh S0 nd0 dd0 by linarith
    from approx_add [OF B Cons.prems(3) split_approx [OF B e, of mid]] this
    have "approx (b + 2 * dd + dd) O2 to2"
      by (simp add: O2_def to2_def dd_def)
    then show ?thesis
      by (rule approx_mono) simp
  qed
  have P2b: "0 \<le> P2" "P2 \<le> P + amount e"
    using Cons.prems(6) am by (simp_all add: P2_def)
  have O2b: "0 \<le> O2" "O2 \<le> O' + amount e"
    using Cons.prems(7) sh by (simp_all add: O2_def)
  have "\<exists>P1 O1 tp1 to1.
           fold (paidOwesExpense mid) es (P2, O2) = (P1, O1)
         \<and> fold (paidOwesExpense_dbl mid) es (tp2, to2) = (tp1, to1)
         \<and> approx ((a + dd) + real (length es) * (B / 2 ^ 53)) P1 tp1
         \<and> approx ((b + 3 * dd) + 3 * real (length es) * (B / 2 ^ 53)) O1 to1
         \<and> 0 \<le> P1 \<and> P1 \<le> P2 + (\<Sum>e\<leftarrow>es. amount e)
         \<and> 0 \<le> O1 \<and> O1 \<le> O2 + (\<Sum>e\<leftarrow>es. amount e)"
  proof (rule Cons.IH)
    show "\<forall>e\<in>set es. consistentExpense ids e \<and> nonnegExpense e \<and> 100 * amount e \<le> B"
      using Cons.prems(1) by simp
    show "approx (a + dd) P2 tp2" by (rule apP)
    show "approx (b + 3 * dd) O2 to2" by (rule apO)
    show "0 \<le> a + dd" "0 \<le> b + 3 * dd"
      using Cons.prems(4,5) dd0 by simp_all
    show "0 \<le> P2" "0 \<le> O2" by (rule P2b(1), rule O2b(1))
    show "P2 + (\<Sum>e\<leftarrow>es. amount e) + (a + dd) + real (length es) * (B / 2 ^ 53) \<le> B"
      using roomP P2b(2) unfolding dd_def [symmetric] n_def [symmetric] S_def [symmetric]
      by linarith
    show "O2 + (\<Sum>e\<leftarrow>es. amount e) + (b + 3 * dd) + 3 * real (length es) * (B / 2 ^ 53) \<le> B"
      using roomO O2b(2) unfolding dd_def [symmetric] n_def [symmetric] S_def [symmetric]
      by linarith
  qed
  then obtain P1 O1 tp1 to1 where r:
    "fold (paidOwesExpense mid) es (P2, O2) = (P1, O1)"
    "fold (paidOwesExpense_dbl mid) es (tp2, to2) = (tp1, to1)"
    "approx ((a + dd) + n * dd) P1 tp1"
    "approx ((b + 3 * dd) + 3 * n * dd) O1 to1"
    "0 \<le> P1" "P1 \<le> P2 + S" "0 \<le> O1" "O1 \<le> O2 + S"
    unfolding dd_def [symmetric] n_def [symmetric] S_def [symmetric] by blast
  have f1: "fold (paidOwesExpense mid) (e # es) (P, O') = (P1, O1)"
    using r(1) by (simp add: paidOwesExpense_def P2_def O2_def)
  have f2: "fold (paidOwesExpense_dbl mid) (e # es) (tp, tow) = (tp1, to1)"
    using r(2) by (simp add: paidOwesExpense_dbl_def tp2_def to2_def)
  have a1: "approx (a + real (length (e # es)) * (B / 2 ^ 53)) P1 tp1"
    unfolding eqn by (rule approx_mono [OF r(3)]) simp
  have a2: "approx (b + 3 * real (length (e # es)) * (B / 2 ^ 53)) O1 to1"
    unfolding eqn3 by (rule approx_mono [OF r(4)]) simp
  have b1: "P1 \<le> P + (\<Sum>e\<leftarrow>e # es. amount e)"
    unfolding eqS using r(6) P2b(2) by linarith
  have b2: "O1 \<le> O' + (\<Sum>e\<leftarrow>e # es. amount e)"
    unfolding eqS using r(8) O2b(2) by linarith
  show ?case
    using f1 f2 a1 a2 r(5,7) b1 b2 by blast
qed

lemma fold_settlements_approx:
  assumes B: "1 \<le> B" "B \<le> 2 ^ 1000"
  shows "\<lbrakk>\<forall>s\<in>set ss. 0 \<le> settlement_amount s;
          approx a P tp; approx b O' tow; 0 \<le> a; 0 \<le> b; 0 \<le> P; 0 \<le> O';
          P + (\<Sum>s\<leftarrow>ss. settlement_amount s) + a + real (length ss) * (B / 2 ^ 53) \<le> B;
          O' + (\<Sum>s\<leftarrow>ss. settlement_amount s) + b + real (length ss) * (B / 2 ^ 53) \<le> B\<rbrakk>
     \<Longrightarrow> \<exists>P1 O1 tp1 to1.
           fold (paidOwesSettlement mid) ss (P, O') = (P1, O1)
         \<and> fold (paidOwesSettlement_dbl mid) ss (tp, tow) = (tp1, to1)
         \<and> approx (a + real (length ss) * (B / 2 ^ 53)) P1 tp1
         \<and> approx (b + real (length ss) * (B / 2 ^ 53)) O1 to1
         \<and> 0 \<le> P1 \<and> P1 \<le> P + (\<Sum>s\<leftarrow>ss. settlement_amount s)
         \<and> 0 \<le> O1 \<and> O1 \<le> O' + (\<Sum>s\<leftarrow>ss. settlement_amount s)"
proof (induction ss arbitrary: P O' tp tow a b)
  case Nil
  then show ?case by simp
next
  case (Cons s ss)
  define dd where "dd = B / 2 ^ 53"
  define n where "n = real (length ss)"
  define S where "S = (\<Sum>s\<leftarrow>ss. settlement_amount s)"
  define x where "x = settlement_amount s"
  have dd0: "0 \<le> dd" using B(1) by (simp add: dd_def)
  have n0: "0 \<le> n" by (simp add: n_def)
  have nd0: "0 \<le> n * dd" using dd0 n0 by simp
  have x0: "0 \<le> x"
    using Cons.prems(1) by (simp add: x_def)
  have S0: "0 \<le> S"
    unfolding S_def using Cons.prems(1) by (intro sum_list_nonneg) auto
  have eqS: "(\<Sum>s\<leftarrow>s # ss. settlement_amount s) = x + S"
    by (simp add: S_def x_def)
  have eqn: "real (length (s # ss)) * (B / 2 ^ 53) = n * dd + dd"
    unfolding dd_def [symmetric] by (simp add: n_def algebra_simps)
  have roomP: "P + (x + S) + a + (n * dd + dd) \<le> B"
    using Cons.prems(8) unfolding eqS eqn .
  have roomO: "O' + (x + S) + b + (n * dd + dd) \<le> B"
    using Cons.prems(9) unfolding eqS eqn .
  define P2 where "P2 = (if fromMember s = mid then P + x else P)"
  define O2 where "O2 = (if toMember s = mid then O' + x else O')"
  define tp2 where "tp2 = (if fromMember s = mid then dbl_add tp (Num x) else tp)"
  define to2 where "to2 = (if toMember s = mid then dbl_add tow (Num x) else tow)"
  have apP: "approx (a + dd) P2 tp2"
  proof (cases "fromMember s = mid")
    case True
    have "\<bar>P + x\<bar> + a + 0 \<le> B"
      using roomP Cons.prems(6) x0 S0 nd0 dd0 by linarith
    from approx_add [OF B Cons.prems(2) approx_exact [of 0 x] this]
    show ?thesis
      using True by (simp add: P2_def tp2_def dd_def)
  next
    case False
    then show ?thesis
      using approx_mono [OF Cons.prems(2), of "a + dd"] dd0 by (simp add: P2_def tp2_def)
  qed
  have apO: "approx (b + dd) O2 to2"
  proof (cases "toMember s = mid")
    case True
    have "\<bar>O' + x\<bar> + b + 0 \<le> B"
      using roomO Cons.prems(7) x0 S0 nd0 dd0 by linarith
    from approx_add [OF B Cons.prems(3) approx_exact [of 0 x] this]
    show ?thesis
      using True by (simp add: O2_def to2_def dd_def)
  next
    case False
    then show ?thesis
      using approx_mono [OF Cons.prems(3), of "b + dd"] dd0 by (simp add: O2_def to2_def)
  qed
  have P2b: "0 \<le> P2" "P2 \<le> P + x"
    using Cons.prems(6) x0 by (simp_all add: P2_def)
  have O2b: "0 \<le> O2" "O2 \<le> O' + x"
    using Cons.prems(7) x0 by (simp_all add: O2_def)
  have "\<exists>P1 O1 tp1 to1.
           fold (paidOwesSettlement mid) ss (P2, O2) = (P1, O1)
         \<and> fold (paidOwesSettlement_dbl mid) ss (tp2, to2) = (tp1, to1)
         \<and> approx ((a + dd) + real (length ss) * (B / 2 ^ 53)) P1 tp1
         \<and> approx ((b + dd) + real (length ss) * (B / 2 ^ 53)) O1 to1
         \<and> 0 \<le> P1 \<and> P1 \<le> P2 + (\<Sum>s\<leftarrow>ss. settlement_amount s)
         \<and> 0 \<le> O1 \<and> O1 \<le> O2 + (\<Sum>s\<leftarrow>ss. settlement_amount s)"
  proof (rule Cons.IH)
    show "\<forall>s\<in>set ss. 0 \<le> settlement_amount s"
      using Cons.prems(1) by simp
    show "approx (a + dd) P2 tp2" by (rule apP)
    show "approx (b + dd) O2 to2" by (rule apO)
    show "0 \<le> a + dd" "0 \<le> b + dd"
      using Cons.prems(4,5) dd0 by simp_all
    show "0 \<le> P2" "0 \<le> O2" by (rule P2b(1), rule O2b(1))
    show "P2 + (\<Sum>s\<leftarrow>ss. settlement_amount s) + (a + dd) + real (length ss) * (B / 2 ^ 53) \<le> B"
      using roomP P2b(2) unfolding dd_def [symmetric] n_def [symmetric] S_def [symmetric]
      by linarith
    show "O2 + (\<Sum>s\<leftarrow>ss. settlement_amount s) + (b + dd) + real (length ss) * (B / 2 ^ 53) \<le> B"
      using roomO O2b(2) unfolding dd_def [symmetric] n_def [symmetric] S_def [symmetric]
      by linarith
  qed
  then obtain P1 O1 tp1 to1 where r:
    "fold (paidOwesSettlement mid) ss (P2, O2) = (P1, O1)"
    "fold (paidOwesSettlement_dbl mid) ss (tp2, to2) = (tp1, to1)"
    "approx ((a + dd) + n * dd) P1 tp1"
    "approx ((b + dd) + n * dd) O1 to1"
    "0 \<le> P1" "P1 \<le> P2 + S" "0 \<le> O1" "O1 \<le> O2 + S"
    unfolding dd_def [symmetric] n_def [symmetric] S_def [symmetric] by blast
  have f1: "fold (paidOwesSettlement mid) (s # ss) (P, O') = (P1, O1)"
    using r(1) by (cases "fromMember s = mid"; cases "toMember s = mid")
      (simp_all add: paidOwesSettlement_def P2_def O2_def x_def)
  have f2: "fold (paidOwesSettlement_dbl mid) (s # ss) (tp, tow) = (tp1, to1)"
    using r(2) by (cases "fromMember s = mid"; cases "toMember s = mid")
      (simp_all add: paidOwesSettlement_dbl_def tp2_def to2_def x_def)
  have a1: "approx (a + real (length (s # ss)) * (B / 2 ^ 53)) P1 tp1"
    unfolding eqn by (rule approx_mono [OF r(3)]) simp
  have a2: "approx (b + real (length (s # ss)) * (B / 2 ^ 53)) O1 to1"
    unfolding eqn by (rule approx_mono [OF r(4)]) simp
  have b1: "P1 \<le> P + (\<Sum>s\<leftarrow>s # ss. settlement_amount s)"
    unfolding eqS using r(6) P2b(2) by linarith
  have b2: "O1 \<le> O' + (\<Sum>s\<leftarrow>s # ss. settlement_amount s)"
    unfolding eqS using r(8) O2b(2) by linarith
  show ?case
    using f1 f2 a1 a2 r(5,7) b1 b2 by blast
qed

lemma getMemberBalances_dbl_balance:
  "map dmb_balance (getMemberBalances_dbl ms es ss)
     = map (\<lambda>m. balance_dbl (member_id m) es ss) ms"
  by (simp add: getMemberBalances_dbl_def balance_dbl_def split: prod.splits)

lemma member_balance_approx:
  assumes B: "1 \<le> B" "B \<le> 2 ^ 1000"
    and ce: "\<forall>e\<in>set es. consistentExpense ids e \<and> nonnegExpense e \<and> 100 * amount e \<le> B"
    and cs: "\<forall>s\<in>set ss. 0 \<le> settlement_amount s"
    and room: "(\<Sum>e\<leftarrow>es. amount e) + (\<Sum>s\<leftarrow>ss. settlement_amount s)
                 + (4 * real (length es) + 2 * real (length ss)) * (B / 2 ^ 53) \<le> B"
  shows "approx ((4 * real (length es) + 2 * real (length ss) + 1) * (B / 2 ^ 53))
           (netBalanceOf mid es ss) (balance_dbl mid es ss)"
proof -
  define dd where "dd = B / 2 ^ 53"
  define E where "E = real (length es)"
  define S where "S = real (length ss)"
  define Ve where "Ve = (\<Sum>e\<leftarrow>es. amount e)"
  define Vs where "Vs = (\<Sum>s\<leftarrow>ss. settlement_amount s)"
  have dd0: "0 \<le> dd" using B(1) by (simp add: dd_def)
  have E0: "0 \<le> E" by (simp add: E_def)
  have S0: "0 \<le> S" by (simp add: S_def)
  have Ed: "0 \<le> E * dd" using E0 dd0 by simp
  have Sd: "0 \<le> S * dd" using S0 dd0 by simp
  have Ve0: "0 \<le> Ve"
    unfolding Ve_def using ce by (intro sum_list_nonneg) (auto simp: nonnegExpense_def)
  have Vs0: "0 \<le> Vs"
    unfolding Vs_def using cs by (intro sum_list_nonneg) auto
  have room': "Ve + Vs + (4 * (E * dd) + 2 * (S * dd)) \<le> B"
    using room unfolding dd_def [symmetric] E_def [symmetric] S_def [symmetric]
      Ve_def [symmetric] Vs_def [symmetric]
    by (simp add: algebra_simps)
  have z: "approx 0 0 (Num 0)" by (simp add: approx_def)
  have "\<exists>P1 O1 tp1 to1.
           fold (paidOwesExpense mid) es (0, 0) = (P1, O1)
         \<and> fold (paidOwesExpense_dbl mid) es (Num 0, Num 0) = (tp1, to1)
         \<and> approx (0 + real (length es) * (B / 2 ^ 53)) P1 tp1
         \<and> approx (0 + 3 * real (length es) * (B / 2 ^ 53)) O1 to1
         \<and> 0 \<le> P1 \<and> P1 \<le> 0 + (\<Sum>e\<leftarrow>es. amount e)
         \<and> 0 \<le> O1 \<and> O1 \<le> 0 + (\<Sum>e\<leftarrow>es. amount e)"
  proof (rule fold_expenses_approx [OF B ce z z])
    show "(0::real) \<le> 0" "(0::real) \<le> 0" "(0::real) \<le> 0" "(0::real) \<le> 0" by simp_all
    show "0 + (\<Sum>e\<leftarrow>es. amount e) + 0 + real (length es) * (B / 2 ^ 53) \<le> B"
      unfolding dd_def [symmetric] E_def [symmetric] Ve_def [symmetric]
      using room' Vs0 Ed Sd by linarith
    show "0 + (\<Sum>e\<leftarrow>es. amount e) + 0 + 3 * real (length es) * (B / 2 ^ 53) \<le> B"
      unfolding dd_def [symmetric] E_def [symmetric] Ve_def [symmetric]
      using room' Vs0 Ed Sd by simp
  qed
  then obtain P1 O1 tp1 to1 where r1:
    "fold (paidOwesExpense mid) es (0, 0) = (P1, O1)"
    "fold (paidOwesExpense_dbl mid) es (Num 0, Num 0) = (tp1, to1)"
    "approx (E * dd) P1 tp1" "approx (3 * (E * dd)) O1 to1"
    "0 \<le> P1" "P1 \<le> Ve" "0 \<le> O1" "O1 \<le> Ve"
    unfolding dd_def [symmetric] E_def [symmetric] Ve_def [symmetric]
    by (auto simp: mult.assoc)
  have "\<exists>P2 O2 tp2 to2.
           fold (paidOwesSettlement mid) ss (P1, O1) = (P2, O2)
         \<and> fold (paidOwesSettlement_dbl mid) ss (tp1, to1) = (tp2, to2)
         \<and> approx (E * dd + real (length ss) * (B / 2 ^ 53)) P2 tp2
         \<and> approx (3 * (E * dd) + real (length ss) * (B / 2 ^ 53)) O2 to2
         \<and> 0 \<le> P2 \<and> P2 \<le> P1 + (\<Sum>s\<leftarrow>ss. settlement_amount s)
         \<and> 0 \<le> O2 \<and> O2 \<le> O1 + (\<Sum>s\<leftarrow>ss. settlement_amount s)"
  proof (rule fold_settlements_approx [OF B cs r1(3) r1(4)])
    show "0 \<le> E * dd" "0 \<le> 3 * (E * dd)" using Ed by simp_all
    show "0 \<le> P1" "0 \<le> O1" by (rule r1(5), rule r1(7))
    show "P1 + (\<Sum>s\<leftarrow>ss. settlement_amount s) + E * dd + real (length ss) * (B / 2 ^ 53) \<le> B"
      unfolding dd_def [symmetric] S_def [symmetric] Vs_def [symmetric]
      using room' r1(6) Ed Sd by linarith
    show "O1 + (\<Sum>s\<leftarrow>ss. settlement_amount s) + 3 * (E * dd)
            + real (length ss) * (B / 2 ^ 53) \<le> B"
      unfolding dd_def [symmetric] S_def [symmetric] Vs_def [symmetric]
      using room' r1(8) Ed Sd by linarith
  qed
  then obtain P2 O2 tp2 to2 where r2:
    "fold (paidOwesSettlement mid) ss (P1, O1) = (P2, O2)"
    "fold (paidOwesSettlement_dbl mid) ss (tp1, to1) = (tp2, to2)"
    "approx (E * dd + S * dd) P2 tp2" "approx (3 * (E * dd) + S * dd) O2 to2"
    "0 \<le> P2" "P2 \<le> P1 + Vs" "0 \<le> O2" "O2 \<le> O1 + Vs"
    unfolding dd_def [symmetric] S_def [symmetric] Vs_def [symmetric]
    by blast
  have po: "paidOwes mid es ss = (P2, O2)"
    by (simp add: paidOwes_def r1(1) r2(1))
  have pod: "paidOwes_dbl mid es ss = (tp2, to2)"
    by (simp add: paidOwes_dbl_def r1(2) r2(2))
  have nb: "netBalanceOf mid es ss = P2 - O2"
    using paidOwes_netBalanceOf [OF po] by simp
  have m: "\<bar>P2 - O2\<bar> + (E * dd + S * dd) + (3 * (E * dd) + S * dd) \<le> B"
    using room' r2(5,6,7,8) r1(6,8) Ve0 Vs0 by linarith
  have "approx ((E * dd + S * dd) + (3 * (E * dd) + S * dd) + B / 2 ^ 53)
          (P2 - O2) (dbl_sub tp2 to2)"
    by (rule approx_sub [OF B r2(3) r2(4) m])
  then have "approx ((4 * E + 2 * S + 1) * dd) (P2 - O2) (dbl_sub tp2 to2)"
    unfolding dd_def [symmetric] by (simp add: algebra_simps)
  then show ?thesis
    unfolding dd_def E_def S_def by (simp add: balance_dbl_def pod nb)
qed

lemma approx_list_sum:
  "\<forall>m\<in>set ms. approx c (f m) (g m) \<Longrightarrow>
     \<exists>bs. map g ms = map Num bs \<and> \<bar>sum_list bs - (\<Sum>m\<leftarrow>ms. f m)\<bar> \<le> real (length ms) * c"
proof (induction ms)
  case Nil
  then show ?case by simp
next
  case (Cons m ms)
  from Cons.prems obtain v where v: "g m = Num v" "\<bar>v - f m\<bar> \<le> c"
    by (auto simp: approx_def)
  from Cons obtain bs where bs: "map g ms = map Num bs"
    "\<bar>sum_list bs - (\<Sum>m\<leftarrow>ms. f m)\<bar> \<le> real (length ms) * c"
    by auto
  have "map g (m # ms) = map Num (v # bs)"
    by (simp add: v(1) bs(1))
  moreover have "\<bar>sum_list (v # bs) - (\<Sum>m\<leftarrow>m # ms. f m)\<bar> \<le> real (length (m # ms)) * c"
    using v(2) bs(2) by (simp add: algebra_simps)
  ultimately show ?case by blast
qed

text \<open>
  C1 (as the code has it). Let the member ids be pairwise distinct; let every
  expense be internally consistent (\<open>consistentExpense\<close>: payer and
  participants are members, the detail entries match the participants one to
  one and sum to the amount or to 100, and an equal split names at least one
  participant and none twice) with a non-negative amount and non-negative
  detail values; let both ends of every settlement be members and its amount
  be non-negative. Let \<open>V \<ge> 1\<close> bound the total of all expense and settlement
  amounts, and let \<open>100 * N * (4 * E + 2 * S + 1) * V \<le> 2^46\<close>, where \<open>N\<close>,
  \<open>E\<close> and \<open>S\<close> count the members, the expenses and the settlements. Then
  every \<^verbatim>\<open>balance\<close> that \<^verbatim>\<open>getMemberBalances\<close> returns, computed in double
  arithmetic, is finite, and the returned balances sum to 0 within the
  tolerance 0.01.
\<close>

theorem balances_dbl_sum_tolerance:
  assumes d: "distinct (map member_id members)"
    and ce: "\<forall>e\<in>set expenses.
               consistentExpense (set (map member_id members)) e \<and> nonnegExpense e"
    and cs: "\<forall>s\<in>set settlements.
               fromMember s \<in> set (map member_id members)
             \<and> toMember s \<in> set (map member_id members)
             \<and> 0 \<le> settlement_amount s"
    and V1: "1 \<le> V"
    and vol: "(\<Sum>e\<leftarrow>expenses. amount e) + (\<Sum>s\<leftarrow>settlements. settlement_amount s) \<le> V"
    and tol: "100 * (real (length members)
                * (4 * real (length expenses) + 2 * real (length settlements) + 1) * V)
              \<le> 2 ^ 46"
  shows "\<exists>bs. map dmb_balance (getMemberBalances_dbl members expenses settlements) = map Num bs
             \<and> \<bar>sum_list bs\<bar> \<le> 0.01"
proof (cases "members = []")
  case True
  have "map dmb_balance (getMemberBalances_dbl members expenses settlements) = map Num []"
    using True by (simp add: getMemberBalances_dbl_def)
  moreover have "\<bar>sum_list ([] :: real list)\<bar> \<le> 0.01" by simp
  ultimately show ?thesis by blast
next
  case False
  define N where "N = real (length members)"
  define K where "K = 4 * real (length expenses) + 2 * real (length settlements) + 1"
  define B where "B = 128 * V"
  define dd where "dd = B / 2 ^ 53"
  have N1: "1 \<le> N"
    using False unfolding N_def by (cases members) simp_all
  have K1: "1 \<le> K" by (simp add: K_def)
  have V0: "0 \<le> V" using V1 by simp
  have tol': "100 * (N * K * V) \<le> 2 ^ 46"
    using tol unfolding N_def K_def .
  have KV: "0 \<le> K * V" using K1 V0 by simp
  have "1 * (K * V) \<le> N * (K * V)"
    using N1 KV by (rule mult_right_mono)
  then have NKV: "K * V \<le> N * K * V" by (simp add: mult.assoc)
  have "1 * V \<le> K * V"
    using K1 V0 by (rule mult_right_mono)
  then have VKV: "V \<le> K * V" by simp
  have dd_eq: "dd = V / 2 ^ 46"
    by (simp add: dd_def B_def)
  have Kdd: "K * dd \<le> 1 / 100"
  proof -
    have "100 * (K * V) \<le> 2 ^ 46"
      using NKV tol' by linarith
    then have "K * V / 2 ^ 46 \<le> 1 / 100"
      by (simp add: field_simps)
    then show ?thesis by (simp add: dd_eq)
  qed
  have NKdd: "N * (K * dd) \<le> 1 / 100"
  proof -
    have "N * K * V / 2 ^ 46 \<le> 1 / 100"
      using tol' by (simp add: field_simps)
    then show ?thesis by (simp add: dd_eq mult.assoc)
  qed
  have B1: "1 \<le> B" using V1 by (simp add: B_def)
  have "100 * V \<le> 2 ^ 46"
    using VKV NKV tol' by linarith
  then have "B \<le> 2 ^ 53"
    by (simp add: B_def)
  moreover have "(2::real) ^ 53 \<le> 2 ^ 1000"
    by (intro power_increasing) simp_all
  ultimately have B2: "B \<le> 2 ^ 1000" by linarith
  have an: "\<forall>e\<in>set expenses. 0 \<le> amount e"
    using ce by (simp add: nonnegExpense_def)
  have Vs0: "0 \<le> (\<Sum>s\<leftarrow>settlements. settlement_amount s)"
    using cs by (intro sum_list_nonneg) auto
  have ce': "\<forall>e\<in>set expenses.
       consistentExpense (set (map member_id members)) e \<and> nonnegExpense e
     \<and> 100 * amount e \<le> B"
  proof
    fix e assume e: "e \<in> set expenses"
    have "amount e \<le> (\<Sum>e\<leftarrow>expenses. amount e)"
      using an e by (rule elem_le_sum_list)
    then have "amount e \<le> V"
      using vol Vs0 by linarith
    then have "100 * amount e \<le> B"
      using V0 by (simp add: B_def)
    then show "consistentExpense (set (map member_id members)) e \<and> nonnegExpense e
        \<and> 100 * amount e \<le> B"
      using ce e by simp
  qed
  have cs': "\<forall>s\<in>set settlements. 0 \<le> settlement_amount s"
    using cs by simp
  have room: "(\<Sum>e\<leftarrow>expenses. amount e) + (\<Sum>s\<leftarrow>settlements. settlement_amount s)
                 + (4 * real (length expenses) + 2 * real (length settlements)) * (B / 2 ^ 53)
              \<le> B"
  proof -
    have dd0: "0 \<le> dd" using V0 by (simp add: dd_eq)
    have "(4 * real (length expenses) + 2 * real (length settlements)) * dd \<le> K * dd"
      using dd0 by (intro mult_right_mono) (simp_all add: K_def)
    then have "(4 * real (length expenses) + 2 * real (length settlements)) * dd \<le> 1 / 100"
      using Kdd by linarith
    moreover have "V + 1 / 100 \<le> B"
      using V1 by (simp add: B_def)
    ultimately show ?thesis
      using vol unfolding dd_def by linarith
  qed
  have ap: "\<forall>m\<in>set members.
      approx (K * dd) (netBalanceOf (member_id m) expenses settlements)
        (balance_dbl (member_id m) expenses settlements)"
    unfolding K_def dd_def
    using member_balance_approx [OF B1 B2 ce' cs' room] by blast
  from approx_list_sum [OF ap] obtain bs where bs:
    "map (\<lambda>m. balance_dbl (member_id m) expenses settlements) members = map Num bs"
    "\<bar>sum_list bs - (\<Sum>m\<leftarrow>members. netBalanceOf (member_id m) expenses settlements)\<bar>
       \<le> real (length members) * (K * dd)"
    by blast
  have ce0: "\<forall>e\<in>set expenses. consistentExpense (set (map member_id members)) e"
    using ce by simp
  have cs0: "\<forall>s\<in>set settlements.
               fromMember s \<in> set (map member_id members)
             \<and> toMember s \<in> set (map member_id members)"
    using cs by simp
  have "(\<Sum>m\<leftarrow>members. netBalanceOf (member_id m) expenses settlements)
      = sum_list (map balance (getMemberBalances members expenses settlements))"
    by (simp only: getMemberBalances_balance)
  also have "\<dots> = 0"
    by (rule exact_balances_sum_zero [OF d ce0 cs0])
  finally have z: "(\<Sum>m\<leftarrow>members. netBalanceOf (member_id m) expenses settlements) = 0" .
  have "\<bar>sum_list bs\<bar> \<le> N * (K * dd)"
    using bs(2) unfolding z N_def by simp
  then have "\<bar>sum_list bs\<bar> \<le> 1 / 100"
    using NKdd by linarith
  then have "\<bar>sum_list bs\<bar> \<le> 0.01" by simp
  moreover have "map dmb_balance (getMemberBalances_dbl members expenses settlements)
      = map Num bs"
    using bs(1) by (simp only: getMemberBalances_dbl_balance)
  ultimately show ?thesis by blast
qed

theorem balances_dbl_sum_tolerance_witness:
  "\<exists>bs. map dmb_balance (getMemberBalances_dbl
      [\<lparr>member_id = ''M1'', member_name = ''Ann'', isActive = True\<rparr>,
       \<lparr>member_id = ''M2'', member_name = ''Bob'', isActive = True\<rparr>,
       \<lparr>member_id = ''M3'', member_name = ''Cy'', isActive = False\<rparr>]
      [\<lparr>amount = 100, paidBy = ''M1'', splitAmong = [''M1'', ''M2'', ''M3''],
        splitType = ''equal'', splitDetails = None, category = None\<rparr>,
       \<lparr>amount = 40, paidBy = ''M2'', splitAmong = [''M1'', ''M3''],
        splitType = ''percentage'',
        splitDetails = Some [\<lparr>memberId = ''M3'', detail_value = 25\<rparr>,
                             \<lparr>memberId = ''M1'', detail_value = 75\<rparr>],
        category = Some ''Food''\<rparr>]
      [\<lparr>fromMember = ''M2'', toMember = ''M1'', settlement_amount = 33\<rparr>]) = map Num bs
     \<and> \<bar>sum_list bs\<bar> \<le> 0.01"
  by (rule balances_dbl_sum_tolerance [where V = 173])
    (auto simp: consistentExpense_def nonnegExpense_def)

lemma dbl_2e14: "dbl 200000000000000 = Num 200000000000000"
  using dbl_eval [of 47 200000000000000 6400000000000000]
  by (simp add: round_even_def)

lemma dbl_share: "dbl (200000000000000 / 3) = Num (8533333333333333 / 128)"
  using dbl_eval [of 45 "200000000000000 / 3" 8533333333333333]
  by (simp add: round_even_def)

lemma dbl_share_exact: "dbl (8533333333333333 / 128) = Num (8533333333333333 / 128)"
  using dbl_eval [of 45 "8533333333333333 / 128" 8533333333333333]
  by (simp add: round_even_def)

lemma dbl_share_neg: "dbl (- (8533333333333333 / 128)) = Num (- (8533333333333333 / 128))"
  using dbl_eval [of 45 "- (8533333333333333 / 128)" "- 8533333333333333"]
  by (simp add: round_even_def)

lemma dbl_payer: "dbl (200000000000000 - 8533333333333333 / 128) = Num (8533333333333334 / 64)"
  using dbl_eval [of 46 "200000000000000 - 8533333333333333 / 128" 8533333333333334]
  by (simp add: round_even_def)

text \<open>
  C1, counterexample to the claim as stated: an equal split of 2e14 paid by A
  among A, B and C, three distinct members. Every condition the claim lists
  holds. The share 2e14 / 3 is rounded to \<open>8533333333333333 / 128\<close>; the
  payer's balance, 2e14 minus that share, lies halfway between two doubles and
  is rounded to \<open>8533333333333334 / 64\<close>; the three returned balances sum to
  \<open>1 / 64 = 0.015625\<close>, which is not within 0.01 of zero.
\<close>

theorem balances_dbl_sum_counterexample:
  "distinct (map member_id
      [\<lparr>member_id = ''A'', member_name = ''Ann'', isActive = True\<rparr>,
       \<lparr>member_id = ''B'', member_name = ''Bob'', isActive = True\<rparr>,
       \<lparr>member_id = ''C'', member_name = ''Cy'', isActive = True\<rparr>])
   \<and> consistentExpense {''A'', ''B'', ''C''}
       \<lparr>amount = 200000000000000, paidBy = ''A'', splitAmong = [''A'', ''B'', ''C''],
        splitType = ''equal'', splitDetails = None, category = None\<rparr>
   \<and> map dmb_balance (getMemberBalances_dbl
      [\<lparr>member_id = ''A'', member_name = ''Ann'', isActive = True\<rparr>,
       \<lparr>member_id = ''B'', member_name = ''Bob'', isActive = True\<rparr>,
       \<lparr>member_id = ''C'', member_name = ''Cy'', isActive = True\<rparr>]
      [\<lparr>amount = 200000000000000, paidBy = ''A'', splitAmong = [''A'', ''B'', ''C''],
        splitType = ''equal'', splitDetails = None, category = None\<rparr>]
      [])
     = map Num [8533333333333334 / 64, - (8533333333333333 / 128), - (8533333333333333 / 128)]
   \<and> sum_list [8533333333333334 / 64, - (8533333333333333 / 128),
                 - (8533333333333333 / 128)] = (1 / 64 :: real)
   \<and> \<not> \<bar>1 / 64 :: real\<bar> \<le> 0.01"
  using dbl_payer
  by (simp add: consistentExpense_def getMemberBalances_dbl_def paidOwes_dbl_def
      paidOwesExpense_dbl_def calculateExpenseSplit_dbl_def dbl_sub_def
      dbl_2e14 dbl_share dbl_share_exact dbl_share_neg)

lemma dbl_small_ints: "dbl 1 = Num 1" "dbl 256 = Num 256" "dbl 257 = Num 257"
  using dbl_eval [of 0 1 "2 ^ 52"] dbl_eval [of 8 256 "2 ^ 52"]
    dbl_eval [of 8 257 "257 * 2 ^ 44"]
  by (simp_all add: round_even_def)

lemma dbl_2p60: "dbl (2 ^ 60) = Num (2 ^ 60)" "dbl (- (2 ^ 60)) = Num (- (2 ^ 60))"
  using dbl_eval_big [of 60 "2 ^ 60" "2 ^ 52"] dbl_eval_big [of 60 "- (2 ^ 60)" "- (2 ^ 52)"]
  by (simp_all add: round_even_def)

lemma dbl_2p60_1: "dbl (2 ^ 60 + 1) = Num (2 ^ 60)"
  using dbl_eval_big [of 60 "2 ^ 60 + 1" "2 ^ 52"]
  by (simp add: round_even_def)

lemma dbl_2p60_256:
  "dbl (2 ^ 60 - 256) = Num (2 ^ 60 - 256)" "dbl (256 - 2 ^ 60) = Num (256 - 2 ^ 60)"
  using dbl_eval_big [of 59 "2 ^ 60 - 256" "2 ^ 53 - 2"]
    dbl_eval_big [of 59 "256 - 2 ^ 60" "2 - 2 ^ 53"]
  by (simp_all add: round_even_def)

text \<open>
  Why the detail values are taken non-negative: detail values of opposite
  signs can be large although they sum to a small amount, and the rounding
  error follows the large values. With an exact split of 256 into \<open>2^60\<close> and
  \<open>256 - 2^60\<close> and an equal split of 1, the returned balances sum to 1.
\<close>

lemma negative_detail_balances:
  "consistentExpense {''P'', ''A'', ''B''}
       \<lparr>amount = 256, paidBy = ''P'', splitAmong = [''A'', ''B''], splitType = ''exact'',
        splitDetails = Some [\<lparr>memberId = ''A'', detail_value = 2 ^ 60\<rparr>,
                             \<lparr>memberId = ''B'', detail_value = 256 - 2 ^ 60\<rparr>],
        category = None\<rparr>
   \<and> map dmb_balance (getMemberBalances_dbl
      [\<lparr>member_id = ''P'', member_name = ''Pat'', isActive = True\<rparr>,
       \<lparr>member_id = ''A'', member_name = ''Ann'', isActive = True\<rparr>,
       \<lparr>member_id = ''B'', member_name = ''Bob'', isActive = True\<rparr>]
      [\<lparr>amount = 256, paidBy = ''P'', splitAmong = [''A'', ''B''], splitType = ''exact'',
        splitDetails = Some [\<lparr>memberId = ''A'', detail_value = 2 ^ 60\<rparr>,
                             \<lparr>memberId = ''B'', detail_value = 256 - 2 ^ 60\<rparr>],
        category = None\<rparr>,
       \<lparr>amount = 1, paidBy = ''P'', splitAmong = [''A''], splitType = ''equal'',
        splitDetails = None, category = None\<rparr>]
      [])
     = map Num [257, - (2 ^ 60), 2 ^ 60 - 256]
   \<and> sum_list [257, - (2 ^ 60), 2 ^ 60 - 256] = (1 :: real)"
  using dbl_small_ints dbl_2p60 dbl_2p60_1 dbl_2p60_256
  by (simp add: consistentExpense_def getMemberBalances_dbl_def paidOwes_dbl_def
      paidOwesExpense_dbl_def calculateExpenseSplit_dbl_def findDetail_def dbl_sub_def)

section \<open>Properties of the settlement optimizer\<close>







lemma optimizeStep_out_length:
  "length (suggestedSettlements (optimizeStep st)) \<le> Suc (length (suggestedSettlements st))"
  by (simp add: optimizeStep_def Let_def)

lemma optimizeLoop_iterations:
  "\<exists>n\<le>remaining st.
      \<not> loopCond ((optimizeStep ^^ n) st)
    \<and> optimizeLoop st = (optimizeStep ^^ n) st
    \<and> length (suggestedSettlements (optimizeLoop st)) \<le> length (suggestedSettlements st) + n"
proof (induction st rule: optimizeLoop.induct)
  case (1 st)
  show ?case
  proof (cases "loopCond st")
    case False
    then have "optimizeLoop st = st"
      by (simp add: optimizeLoop.simps)
    with False show ?thesis
      by (intro exI [of _ 0]) simp
  next
    case True
    from "1.IH" [OF True] obtain n where n: "n \<le> remaining (optimizeStep st)"
      "\<not> loopCond ((optimizeStep ^^ n) (optimizeStep st))"
      "optimizeLoop (optimizeStep st) = (optimizeStep ^^ n) (optimizeStep st)"
      "length (suggestedSettlements (optimizeLoop (optimizeStep st)))
         \<le> length (suggestedSettlements (optimizeStep st)) + n"
      by blast
    have loop: "optimizeLoop st = optimizeLoop (optimizeStep st)"
      using True by (subst optimizeLoop.simps) simp
    have pow: "(optimizeStep ^^ Suc n) st = (optimizeStep ^^ n) (optimizeStep st)"
      by (simp add: funpow_swap1)
    have "Suc n \<le> remaining st"
      using n(1) optimizeStep_remaining [OF True] by simp
    moreover have "\<not> loopCond ((optimizeStep ^^ Suc n) st)"
      using n(2) pow by simp
    moreover have "optimizeLoop st = (optimizeStep ^^ Suc n) st"
      using n(3) loop pow by simp
    moreover have "length (suggestedSettlements (optimizeLoop st))
        \<le> length (suggestedSettlements st) + Suc n"
      using n(4) loop optimizeStep_out_length [of st] by simp
    ultimately show ?thesis
      by blast
  qed
qed

lemma length_filter_disjoint:
  "(\<And>x. \<not> (P x \<and> Q x)) \<Longrightarrow> length (filter P xs) + length (filter Q xs) \<le> length xs"
  by (induction xs) auto

lemma length_netBalances:
  "length (netBalances members expenses settlements) \<le> length members"
  unfolding netBalances_def
  by (induction members) (auto simp: Let_def)

lemma remaining_init:
  "remaining (initState nbs) \<le> length nbs"
  using length_filter_disjoint [of "\<lambda>m. nb_balance m < 0" "\<lambda>m. nb_balance m > 0" nbs]
  by (simp add: remaining_def initState_def debtorsOf_def creditorsOf_def)

text \<open>
  The progress argument of the two-pointer loop, in exact arithmetic: when
  every balance is a finite number and the operations are exact, the loop
  condition fails after \<open>n\<close> executions of the loop body for some \<open>n\<close> that
  is at most the number of members, the loop returns the state reached then,
  and it has emitted at most \<open>n\<close> suggestions. The argument needs the balances
  to be finite; on doubles they need not be, see the end of this section.
\<close>

lemma exact_optimizer_terminates:
  "\<exists>n\<le>length members.
      \<not> loopCond ((optimizeStep ^^ n) (initState (netBalances members expenses settlements)))
    \<and> optimizeLoop (initState (netBalances members expenses settlements))
        = (optimizeStep ^^ n) (initState (netBalances members expenses settlements))
    \<and> length (getOptimizedSettlements members expenses settlements) \<le> n"
proof -
  let ?st = "initState (netBalances members expenses settlements)"
  obtain n where n: "n \<le> remaining ?st" "\<not> loopCond ((optimizeStep ^^ n) ?st)"
    "optimizeLoop ?st = (optimizeStep ^^ n) ?st"
    "length (suggestedSettlements (optimizeLoop ?st)) \<le> length (suggestedSettlements ?st) + n"
    using optimizeLoop_iterations [of ?st] by blast
  have "n \<le> length members"
    using n(1) remaining_init [of "netBalances members expenses settlements"]
      length_netBalances [of members expenses settlements] by linarith
  moreover have "length (getOptimizedSettlements members expenses settlements) \<le> n"
    using n(4) by (simp add: getOptimizedSettlements_def optimize_def initState_def)
  ultimately show ?thesis
    using n(2,3) by blast
qed

lemma exact_optimizer_terminates_example:
  "\<exists>n\<le>3.
      \<not> loopCond ((optimizeStep ^^ n) (initState (netBalances
          [\<lparr>member_id = ''A'', member_name = ''Ann'', isActive = True\<rparr>,
           \<lparr>member_id = ''B'', member_name = ''Bob'', isActive = True\<rparr>,
           \<lparr>member_id = ''C'', member_name = ''Cy'', isActive = True\<rparr>]
          [\<lparr>amount = 90, paidBy = ''A'', splitAmong = [''A'', ''B'', ''C''],
            splitType = ''equal'', splitDetails = None, category = None\<rparr>]
          [\<lparr>fromMember = ''B'', toMember = ''A'', settlement_amount = 40\<rparr>])))
    \<and> length (getOptimizedSettlements
          [\<lparr>member_id = ''A'', member_name = ''Ann'', isActive = True\<rparr>,
           \<lparr>member_id = ''B'', member_name = ''Bob'', isActive = True\<rparr>,
           \<lparr>member_id = ''C'', member_name = ''Cy'', isActive = True\<rparr>]
          [\<lparr>amount = 90, paidBy = ''A'', splitAmong = [''A'', ''B'', ''C''],
            splitType = ''equal'', splitDetails = None, category = None\<rparr>]
          [\<lparr>fromMember = ''B'', toMember = ''A'', settlement_amount = 40\<rparr>]) \<le> n"
proof -
  let ?M = "[\<lparr>member_id = ''A'', member_name = ''Ann'', isActive = True\<rparr>,
           \<lparr>member_id = ''B'', member_name = ''Bob'', isActive = True\<rparr>,
           \<lparr>member_id = ''C'', member_name = ''Cy'', isActive = True\<rparr>]"
  let ?E = "[\<lparr>amount = 90, paidBy = ''A'', splitAmong = [''A'', ''B'', ''C''],
            splitType = ''equal'', splitDetails = None, category = None\<rparr>]"
  let ?S = "[\<lparr>fromMember = ''B'', toMember = ''A'', settlement_amount = 40\<rparr>]"
  from exact_optimizer_terminates [of ?M ?E ?S]
  obtain n where n: "n \<le> length ?M"
    "\<not> loopCond ((optimizeStep ^^ n) (initState (netBalances ?M ?E ?S)))"
    "length (getOptimizedSettlements ?M ?E ?S) \<le> n"
    by blast
  from n(1) have "n \<le> 3"
    by simp
  with n(2,3) show ?thesis
    by blast
qed

lemma optimizeStep_ids:
  assumes "loopCond st"
  shows "nb_memberId ` set (debtors (optimizeStep st)) = nb_memberId ` set (debtors st)"
    and "nb_memberId ` set (creditors (optimizeStep st)) = nb_memberId ` set (creditors st)"
proof -
  have "map nb_memberId (debtors (optimizeStep st)) = map nb_memberId (debtors st)"
    using assms
    by (simp add: optimizeStep_def Let_def loopCond_def map_update list_update_same_conv)
  from arg_cong [OF this, of set]
  show "nb_memberId ` set (debtors (optimizeStep st)) = nb_memberId ` set (debtors st)"
    by simp
  have "map nb_memberId (creditors (optimizeStep st)) = map nb_memberId (creditors st)"
    using assms
    by (simp add: optimizeStep_def Let_def loopCond_def map_update list_update_same_conv)
  from arg_cong [OF this, of set]
  show "nb_memberId ` set (creditors (optimizeStep st)) = nb_memberId ` set (creditors st)"
    by simp
qed

lemma optimizeStep_from_to:
  assumes "loopCond st"
  shows "debt_from ` set (suggestedSettlements (optimizeStep st))
           \<subseteq> debt_from ` set (suggestedSettlements st) \<union> nb_memberId ` set (debtors st)"
    and "debt_to ` set (suggestedSettlements (optimizeStep st))
           \<subseteq> debt_to ` set (suggestedSettlements st) \<union> nb_memberId ` set (creditors st)"
  using assms by (auto simp: optimizeStep_def Let_def loopCond_def)

lemma optimizeLoop_from_to:
  "debt_from ` set (suggestedSettlements (optimizeLoop st))
      \<subseteq> debt_from ` set (suggestedSettlements st) \<union> nb_memberId ` set (debtors st)
   \<and> debt_to ` set (suggestedSettlements (optimizeLoop st))
      \<subseteq> debt_to ` set (suggestedSettlements st) \<union> nb_memberId ` set (creditors st)"
proof (induction st rule: optimizeLoop.induct)
  case (1 st)
  show ?case
  proof (cases "loopCond st")
    case False
    then have "optimizeLoop st = st"
      by (subst optimizeLoop.simps) simp
    then show ?thesis
      by simp
  next
    case True
    have loop: "optimizeLoop st = optimizeLoop (optimizeStep st)"
      using True by (subst optimizeLoop.simps) simp
    show ?thesis
      unfolding loop
      using "1.IH" [OF True] optimizeStep_from_to [OF True]
      unfolding optimizeStep_ids [OF True]
      by blast
  qed
qed

text \<open>
  C10. In the list returned by \<^verbatim>\<open>getOptimizedSettlements\<close> no member is
  both a payer (\<^verbatim>\<open>from\<close>) and a receiver (\<^verbatim>\<open>to\<close>): payers come from the
  entries with a negative rounded balance, receivers from those with a
  positive one, and the rounded balance is determined by the member's id.
\<close>

theorem payers_receivers_disjoint:
  "debt_from ` set (getOptimizedSettlements members expenses settlements)
     \<inter> debt_to ` set (getOptimizedSettlements members expenses settlements) = {}"
proof -
  let ?nbs = "netBalances members expenses settlements"
  let ?st = "initState ?nbs"
  let ?out = "getOptimizedSettlements members expenses settlements"
  have out: "?out = suggestedSettlements (optimizeLoop ?st)"
    by (simp add: getOptimizedSettlements_def optimize_def initState_def)
  have st: "suggestedSettlements ?st = []"
    "set (debtors ?st) = {m \<in> set ?nbs. nb_balance m < 0}"
    "set (creditors ?st) = {m \<in> set ?nbs. nb_balance m > 0}"
    by (simp_all add: initState_def debtorsOf_def creditorsOf_def)
  have sub: "debt_from ` set ?out \<subseteq> nb_memberId ` {m \<in> set ?nbs. nb_balance m < 0}"
    "debt_to ` set ?out \<subseteq> nb_memberId ` {m \<in> set ?nbs. nb_balance m > 0}"
    using optimizeLoop_from_to [of ?st] unfolding out st by simp_all
  have ne: "nb_memberId x \<noteq> nb_memberId y"
    if "x \<in> set ?nbs" "nb_balance x < 0" "y \<in> set ?nbs" "nb_balance y > 0" for x y
  proof
    assume "nb_memberId x = nb_memberId y"
    then have "nb_balance x = nb_balance y"
      using netBalances_entry [OF that(1)] netBalances_entry [OF that(3)] by simp
    then show False
      using that(2,4) by simp
  qed
  show ?thesis
  proof (rule ccontr)
    assume "debt_from ` set ?out \<inter> debt_to ` set ?out \<noteq> {}"
    then obtain k where "k \<in> debt_from ` set ?out" "k \<in> debt_to ` set ?out"
      by blast
    then obtain x y where "x \<in> set ?nbs" "nb_balance x < 0" "k = nb_memberId x"
      "y \<in> set ?nbs" "nb_balance y > 0" "k = nb_memberId y"
      using sub by blast
    then show False
      using ne [of x y] by simp
  qed
qed

theorem payers_receivers_disjoint_witness:
  "debt_from ` set (getOptimizedSettlements
        [\<lparr>member_id = ''A'', member_name = ''Ann'', isActive = True\<rparr>,
         \<lparr>member_id = ''B'', member_name = ''Bob'', isActive = True\<rparr>]
        [\<lparr>amount = 90, paidBy = ''A'', splitAmong = [''A'', ''B''],
          splitType = ''equal'', splitDetails = None, category = None\<rparr>]
        [])
   \<inter> debt_to ` set (getOptimizedSettlements
        [\<lparr>member_id = ''A'', member_name = ''Ann'', isActive = True\<rparr>,
         \<lparr>member_id = ''B'', member_name = ''Bob'', isActive = True\<rparr>]
        [\<lparr>amount = 90, paidBy = ''A'', splitAmong = [''A'', ''B''],
          splitType = ''equal'', splitDetails = None, category = None\<rparr>]
        []) = {}"
  by (rule payers_receivers_disjoint)

subsection \<open>The optimizer loop on doubles\<close>

text \<open>
  A state that satisfies the loop condition and that the loop body leaves
  unchanged is never left: the loop does not return from it.
\<close>

lemma optimizeLoop_dbl_stuck:
  assumes "optimizeLoop_dbl st = Some r"
  shows "\<not> (loopCond_dbl st \<and> optimizeStep_dbl st = st)"
  using assms
proof (induction rule: optimizeLoop_dbl.raw_induct [rotated 1, consumes 1])
  case (1 f st r)
  show ?case
  proof
    assume stuck: "loopCond_dbl st \<and> optimizeStep_dbl st = st"
    with 1(2) have "f st = Some r"
      by simp
    from 1(1) [OF this] stuck show False
      by simp
  qed
qed

lemma overflow_netBalances:
  "netBalances_dbl
     [\<lparr>member_id = ''A'', member_name = ''Ann'', isActive = True\<rparr>,
      \<lparr>member_id = ''B'', member_name = ''Bob'', isActive = True\<rparr>]
     [\<lparr>amount = huge, paidBy = ''A'', splitAmong = [''B''], splitType = ''exact'',
       splitDetails = Some [\<lparr>memberId = ''B'', detail_value = huge\<rparr>],
       category = None\<rparr>]
     []
   = [\<lparr>dnb_memberId = ''A'', dnb_name = ''Ann'', dnb_balance = PosInfinity\<rparr>,
      \<lparr>dnb_memberId = ''B'', dnb_name = ''Bob'', dnb_balance = NegInfinity\<rparr>]"
proof -
  have "cent < 1"
    by (simp add: cent_def)
  then have "\<bar>huge\<bar> > cent"
    using huge_ge by linarith
  then show ?thesis
    by (simp add: netBalances_dbl_def netBalanceOf_dbl_def netExpense_dbl_def
        calculateExpenseSplit_dbl_def findDetail_def dbl_sub_def dbl_round2_def
        dbl_huge dbl_huge_100 Let_def)
qed

text \<open>
  C8, the defect. Two members; one exact expense of \<open>2^1023\<close> (a finite double,
  about 8.99e307) paid by A and owed by B. \<^verbatim>\<open>createExact\<close> accepts it: the
  amount is positive and the details sum to the amount. The balances are
  \<open>2^1023\<close> and \<open>-2^1023\<close>; in line 247 the product with 100 overflows and the
  stored balances are \<^verbatim>\<open>Infinity\<close> and \<^verbatim>\<open>-Infinity\<close>. The first iteration
  emits a suggestion of amount \<^verbatim>\<open>Infinity\<close> and leaves both balances
  \<^verbatim>\<open>NaN\<close> (\<^verbatim>\<open>-Infinity + Infinity\<close>). From then on
  \<^verbatim>\<open>Math.abs(NaN) < 0.01\<close> is false, neither pointer advances, every
  iteration reproduces the same state, and the query never returns.
\<close>

theorem optimizer_overflow_never_returns:
  "getOptimizedSettlements_dbl
     [\<lparr>member_id = ''A'', member_name = ''Ann'', isActive = True\<rparr>,
      \<lparr>member_id = ''B'', member_name = ''Bob'', isActive = True\<rparr>]
     [\<lparr>amount = huge, paidBy = ''A'', splitAmong = [''B''], splitType = ''exact'',
       splitDetails = Some [\<lparr>memberId = ''B'', detail_value = huge\<rparr>],
       category = None\<rparr>]
     [] = None"
proof -
  let ?a = "\<lparr>dnb_memberId = ''A'', dnb_name = ''Ann'', dnb_balance = PosInfinity\<rparr>"
  let ?b = "\<lparr>dnb_memberId = ''B'', dnb_name = ''Bob'', dnb_balance = NegInfinity\<rparr>"
  let ?st0 = "\<lparr>debtorsD = [?b], creditorsD = [?a], optD_i = 0, optD_j = 0,
               suggestedSettlementsD = []\<rparr>"
  let ?st1 = "\<lparr>debtorsD = [?b\<lparr>dnb_balance := NaN\<rparr>],
               creditorsD = [?a\<lparr>dnb_balance := NaN\<rparr>], optD_i = 0, optD_j = 0,
               suggestedSettlementsD =
                 [\<lparr>debt_from = ''B'', debt_fromName = ''Bob'', debt_to = ''A'',
                   debt_toName = ''Ann'', debt_amount = PosInfinity\<rparr>]\<rparr>"
  have step0: "optimizeStep_dbl ?st0 = ?st1"
    by (simp add: optimizeStep_dbl_def Let_def dbl_sub_def dbl_round2_def)
  have cond0: "loopCond_dbl ?st0"
    by (simp add: loopCond_dbl_def)
  have stuck: "loopCond_dbl ?st1 \<and> optimizeStep_dbl ?st1 = ?st1"
    by (simp add: loopCond_dbl_def optimizeStep_dbl_def Let_def dbl_sub_def)
  have "optimizeLoop_dbl ?st1 = None"
  proof (cases "optimizeLoop_dbl ?st1")
    case None
    then show ?thesis .
  next
    case (Some r)
    from optimizeLoop_dbl_stuck [OF Some] stuck show ?thesis
      by simp
  qed
  then have "optimizeLoop_dbl ?st0 = None"
    using cond0 step0 by (subst optimizeLoop_dbl.simps) simp
  then show ?thesis
    by (simp add: getOptimizedSettlements_dbl_def overflow_netBalances
        debtorsOf_dbl_def creditorsOf_dbl_def sortBy_def)
qed

section \<open>Properties of the debt matrix and the debt simplifier\<close>

lemma fold_init_row:
  "fold (\<lambda>other r. r(member_id other \<mapsto> v)) ms r0
     = (\<lambda>k. if k \<in> set (map member_id ms) then Some v else r0 k)"
  by (induction ms arbitrary: r0) (auto simp: fun_eq_iff)

lemma initRow_apply:
  "initRow ms k = (if k \<in> set (map member_id ms) then Some (Num 0) else None)"
  by (simp add: initRow_def fold_init_row)

lemma initDebts_apply:
  "initDebts ms k = (if k \<in> set (map member_id ms) then Some (initRow ms) else None)"
  by (simp add: initDebts_def fold_init_row)

lemma agrees_init: "agrees (set (map member_id ms)) (initDebts ms) (\<lambda>_. 0)"
  by (auto simp: agrees_def initDebts_apply initRow_apply dom_def)

lemma updateCell_error_iff:
  "updateCell f debts a b = Inl err \<longleftrightarrow> a \<notin> dom debts \<and> err = TypeError"
  by (auto simp: updateCell_def split: option.splits)

lemma updateCell_add_agrees:
  assumes "agrees ids debts M"
    and "updateCell (\<lambda>c. js_add c (Num x)) debts a b = Inr debts'"
  shows "agrees ids debts' (M((a, b) := M (a, b) + x))"
proof -
  from assms(2) obtain r where r: "debts a = Some r"
    and d': "debts' = debts(a \<mapsto> r(b \<mapsto> js_add (readCell r b) (Num x)))"
    by (auto simp: updateCell_def split: option.splits)
  have a: "a \<in> ids"
    using assms(1) r by (auto simp: agrees_def)
  have row: "\<forall>b\<in>ids. r b = Some (Num (M (a, b)))"
  proof -
    from assms(1) a obtain r0 where "debts a = Some r0"
      "\<forall>b\<in>ids. r0 b = Some (Num (M (a, b)))"
      unfolding agrees_def by blast
    with r show ?thesis by simp
  qed
  have cell: "js_add (readCell r b) (Num x) = Num (M (a, b) + x)" if "b \<in> ids"
    using row that by (simp add: readCell_def)
  show ?thesis
    unfolding agrees_def
  proof (intro conjI ballI)
    show "dom debts' = ids"
      using assms(1) a by (auto simp: d' agrees_def)
  next
    fix a' assume a': "a' \<in> ids"
    then obtain r' where r': "debts a' = Some r'" "\<forall>b\<in>ids. r' b = Some (Num (M (a', b)))"
      using assms(1) by (auto simp: agrees_def)
    show "\<exists>r. debts' a' = Some r \<and>
            (\<forall>b'\<in>ids. r b' = Some (Num ((M((a, b) := M (a, b) + x)) (a', b'))))"
    proof (cases "a' = a")
      case True
      then have "r' = r" using r r' by simp
      then show ?thesis
        using True r'(2) cell by (auto simp: d')
    next
      case False
      then show ?thesis
        using r' by (auto simp: d')
    qed
  qed
qed

lemma updateCell_sub_agrees:
  assumes "agrees ids debts M"
    and "updateCell (\<lambda>c. js_sub c (Num x)) debts a b = Inr debts'"
  shows "agrees ids debts' (M((a, b) := M (a, b) - x))"
proof -
  have "(\<lambda>c. js_sub c (Num x)) = (\<lambda>c. js_add c (Num (- x)))"
    by (simp add: js_sub_def)
  then show ?thesis
    using updateCell_add_agrees [OF assms(1), of "- x" a b debts'] assms(2) by simp
qed

lemma addShares_agrees:
  "agrees ids debts M \<Longrightarrow> addShares e ps debts = Inr debts' \<Longrightarrow>
     agrees ids debts'
       (fold (\<lambda>p M. if p \<noteq> paidBy e
                  then M((p, paidBy e) := M (p, paidBy e) + calculateExpenseSplit e p)
                  else M) ps M)"
proof (induction ps arbitrary: debts M)
  case Nil
  then show ?case by simp
next
  case (Cons p ps)
  show ?case
  proof (cases "p = paidBy e")
    case True
    then show ?thesis
      using Cons by simp
  next
    case False
    then obtain d1 where d1:
      "updateCell (\<lambda>c. js_add c (Num (calculateExpenseSplit e p))) debts p (paidBy e) = Inr d1"
      "addShares e ps d1 = Inr debts'"
      using Cons.prems(2) by (auto split: sum.splits)
    let ?F = "\<lambda>p M. if p \<noteq> paidBy e
                  then M((p, paidBy e) := M (p, paidBy e) + calculateExpenseSplit e p)
                  else M"
    let ?M1 = "M((p, paidBy e) := M (p, paidBy e) + calculateExpenseSplit e p)"
    have "agrees ids d1 ?M1"
      using updateCell_add_agrees [OF Cons.prems(1) d1(1)] .
    then have "agrees ids debts' (fold ?F ps ?M1)"
      using d1(2) by (rule Cons.IH)
    moreover have "fold ?F (p # ps) M = fold ?F ps ?M1"
      using False by (simp del: fun_upd_apply)
    ultimately show ?thesis
      by (simp only:)
  qed
qed

lemma addShares_ok_iff:
  "dom debts = ids \<Longrightarrow>
     (\<exists>debts'. addShares e ps debts = Inr debts')
       \<longleftrightarrow> (\<forall>p\<in>set ps. p \<noteq> paidBy e \<longrightarrow> p \<in> ids)"
proof (induction ps arbitrary: debts)
  case Nil
  then show ?case by simp
next
  case (Cons p ps)
  show ?case
  proof (cases "p = paidBy e")
    case True
    then show ?thesis
      using Cons by simp
  next
    case False
    show ?thesis
    proof (cases "p \<in> ids")
      case True
      then obtain r where r: "debts p = Some r"
        using Cons.prems by auto
      let ?d1 = "debts(p \<mapsto> r(paidBy e \<mapsto>
                   js_add (readCell r (paidBy e)) (Num (calculateExpenseSplit e p))))"
      have "dom ?d1 = ids"
        using Cons.prems True by auto
      then have "(\<exists>debts'. addShares e ps ?d1 = Inr debts')
            \<longleftrightarrow> (\<forall>p\<in>set ps. p \<noteq> paidBy e \<longrightarrow> p \<in> ids)"
        by (rule Cons.IH)
      moreover have "addShares e (p # ps) debts = addShares e ps ?d1"
        using False r by (simp add: updateCell_def del: fun_upd_apply)
      ultimately show ?thesis
        using True by (simp del: fun_upd_apply)
    next
      case nin: False
      then have "debts p = None"
        using Cons.prems by auto
      then show ?thesis
        using False nin by (auto simp: updateCell_def)
    qed
  qed
qed

lemma addExpenses_agrees:
  "agrees ids debts M \<Longrightarrow> addExpenses es debts = Inr debts' \<Longrightarrow>
     agrees ids debts' (fold spec_addExpense es M)"
proof (induction es arbitrary: debts M)
  case Nil
  then show ?case by simp
next
  case (Cons e es)
  then obtain d1 where d1: "addShares e (splitAmong e) debts = Inr d1"
    "addExpenses es d1 = Inr debts'"
    by (auto split: sum.splits)
  have "agrees ids d1 (spec_addExpense e M)"
    unfolding spec_addExpense_def by (rule addShares_agrees [OF Cons.prems(1) d1(1)])
  from Cons.IH [OF this d1(2)] show ?case
    by simp
qed

lemma addExpenses_ok_iff:
  "agrees ids debts M \<Longrightarrow>
     (\<exists>debts'. addExpenses es debts = Inr debts')
       \<longleftrightarrow> (\<forall>e\<in>set es. \<forall>p\<in>set (splitAmong e). p \<noteq> paidBy e \<longrightarrow> p \<in> ids)"
proof (induction es arbitrary: debts M)
  case Nil
  then show ?case by simp
next
  case (Cons e es)
  have dom: "dom debts = ids"
    using Cons.prems by (simp add: agrees_def)
  show ?case
  proof (cases "addShares e (splitAmong e) debts")
    case (Inl err)
    then have "\<not> (\<forall>p\<in>set (splitAmong e). p \<noteq> paidBy e \<longrightarrow> p \<in> ids)"
      using addShares_ok_iff [OF dom, of e "splitAmong e"] by auto
    then show ?thesis
      using Inl by auto
  next
    case (Inr d1)
    then have ok: "\<forall>p\<in>set (splitAmong e). p \<noteq> paidBy e \<longrightarrow> p \<in> ids"
      using addShares_ok_iff [OF dom, of e "splitAmong e"] by blast
    have "agrees ids d1 (spec_addExpense e M)"
      unfolding spec_addExpense_def by (rule addShares_agrees [OF Cons.prems Inr])
    from Cons.IH [OF this] show ?thesis
      using Inr ok by simp
  qed
qed

lemma subtractSettlements_agrees:
  "agrees ids debts M \<Longrightarrow> subtractSettlements ss debts = Inr debts' \<Longrightarrow>
     agrees ids debts'
       (fold (\<lambda>s M. M((fromMember s, toMember s) :=
                     M (fromMember s, toMember s) - settlement_amount s)) ss M)"
proof (induction ss arbitrary: debts M)
  case Nil
  then show ?case by simp
next
  case (Cons s ss)
  then obtain d1 where d1:
    "updateCell (\<lambda>c. js_sub c (Num (settlement_amount s))) debts
       (fromMember s) (toMember s) = Inr d1"
    "subtractSettlements ss d1 = Inr debts'"
    by (auto split: sum.splits)
  from Cons.IH [OF updateCell_sub_agrees [OF Cons.prems(1) d1(1)] d1(2)]
  show ?case by simp
qed

lemma subtractSettlements_ok_iff:
  "agrees ids debts M \<Longrightarrow>
     (\<exists>debts'. subtractSettlements ss debts = Inr debts')
       \<longleftrightarrow> (\<forall>s\<in>set ss. fromMember s \<in> ids)"
proof (induction ss arbitrary: debts M)
  case Nil
  then show ?case by simp
next
  case (Cons s ss)
  have dom: "dom debts = ids"
    using Cons.prems by (simp add: agrees_def)
  show ?case
  proof (cases "updateCell (\<lambda>c. js_sub c (Num (settlement_amount s))) debts
       (fromMember s) (toMember s)")
    case (Inl err)
    then have "fromMember s \<notin> ids"
      using dom by (simp add: updateCell_error_iff)
    then show ?thesis
      using Inl by auto
  next
    case (Inr d1)
    then have "fromMember s \<in> ids"
      using dom by (auto simp: updateCell_def split: option.splits)
    moreover from Cons.IH [OF updateCell_sub_agrees [OF Cons.prems Inr]]
    have "(\<exists>debts'. subtractSettlements ss d1 = Inr debts')
            \<longleftrightarrow> (\<forall>s\<in>set ss. fromMember s \<in> ids)" .
    ultimately show ?thesis
      using Inr by simp
  qed
qed

lemma buildDebts_agrees:
  assumes "buildDebts ms es ss = Inr debts"
  shows "agrees (set (map member_id ms)) debts (spec_matrix es ss)"
proof -
  from assms obtain d1 where d1: "addExpenses es (initDebts ms) = Inr d1"
    "subtractSettlements ss d1 = Inr debts"
    by (auto simp: buildDebts_def split: sum.splits)
  have "agrees (set (map member_id ms)) d1 (fold spec_addExpense es (\<lambda>_. 0))"
    by (rule addExpenses_agrees [OF agrees_init d1(1)])
  then show ?thesis
    unfolding spec_matrix_def using d1(2) by (rule subtractSettlements_agrees)
qed

lemma buildDebts_ok_iff:
  "(\<exists>debts. buildDebts ms es ss = Inr debts)
     \<longleftrightarrow> resolvable (set (map member_id ms)) es ss"
proof (cases "addExpenses es (initDebts ms)")
  case (Inl err)
  then show ?thesis
    using addExpenses_ok_iff [OF agrees_init [of ms], of es]
    by (auto simp: buildDebts_def resolvable_def)
next
  case (Inr d1)
  have "agrees (set (map member_id ms)) d1 (fold spec_addExpense es (\<lambda>_. 0))"
    by (rule addExpenses_agrees [OF agrees_init Inr])
  from subtractSettlements_ok_iff [OF this, of ss] show ?thesis
    using Inr addExpenses_ok_iff [OF agrees_init [of ms], of es]
    by (auto simp: buildDebts_def resolvable_def)
qed

lemma sort_two: "sort [a, b] = (if a \<le> b then [a, b] else [b, a])" for a b :: string
  by simp

lemma pairKey_alt:
  "pairKey a b = (if a \<le> b then a @ ''-'' @ b else b @ ''-'' @ a)"
  by (simp add: pairKey_def)

lemma pairKey_commute: "pairKey a b = pairKey b a"
  by (auto simp: pairKey_alt)

lemma hyphen_split_unique:
  "CHR ''-'' \<notin> set a \<Longrightarrow> CHR ''-'' \<notin> set c \<Longrightarrow>
     a @ CHR ''-'' # b = c @ CHR ''-'' # d \<Longrightarrow> a = c \<and> b = d"
proof (induction a arbitrary: c)
  case Nil
  then show ?case by (cases c) auto
next
  case (Cons x a)
  then show ?case by (cases c) auto
qed

lemma pairKey_eq_iff:
  assumes "hyphenFree a" "hyphenFree b" "hyphenFree c" "hyphenFree d"
  shows "pairKey a b = pairKey c d \<longleftrightarrow> {a, b} = {c, d}"
proof
  assume "{a, b} = {c, d}"
  then have "(a = c \<and> b = d) \<or> (a = d \<and> b = c)"
    by (auto simp: doubleton_eq_iff)
  then show "pairKey a b = pairKey c d"
    using pairKey_commute [of c d] by auto
next
  assume eq: "pairKey a b = pairKey c d"
  have "(a = c \<and> b = d) \<or> (a = d \<and> b = c)"
    using eq assms hyphen_split_unique [of a c b d] hyphen_split_unique [of a d b c]
      hyphen_split_unique [of b c a d] hyphen_split_unique [of b d a c]
    by (auto simp: pairKey_alt hyphenFree_def split: if_splits)
  then show "{a, b} = {c, d}"
    by auto
qed

lemma netPair_agrees:
  assumes "agrees ids debts (spec_matrix es ss)"
    and "member_id A \<in> ids" "member_id B \<in> ids"
  shows "netPair debts A B = Inr (spec_pairDebt es ss A B)"
proof -
  let ?M = "spec_matrix es ss"
  from assms obtain rA where rA: "debts (member_id A) = Some rA"
    "\<forall>b\<in>ids. rA b = Some (Num (?M (member_id A, b)))"
    unfolding agrees_def by blast
  from assms obtain rB where rB: "debts (member_id B) = Some rB"
    "\<forall>b\<in>ids. rB b = Some (Num (?M (member_id B, b)))"
    unfolding agrees_def by blast
  have cells: "readCell rA (member_id B) = Num (?M (member_id A, member_id B))"
    "readCell rB (member_id A) = Num (?M (member_id B, member_id A))"
    using rA(2) rB(2) assms(2,3) by (simp_all add: readCell_def)
  show ?thesis
    by (simp add: netPair_def rA(1) rB(1) cells js_sub_def spec_pairDebt_def spec_net_def
        Let_def not_le)
qed

lemma simplifyInner_result:
  assumes "\<forall>c\<in>set cs. netPair debts debtor c = Inr (E c)"
    and "distinct (map member_id cs)"
    and "hyphenFree (member_id debtor)"
    and "\<forall>c\<in>set cs. hyphenFree (member_id c)"
  shows "simplifyInner debts debtor cs (P, out) =
     Inr (P \<union> {pairKey (member_id debtor) (member_id c) | c.
               c \<in> set cs \<and> member_id c \<noteq> member_id debtor},
          out @ concat (map E (filter
             (\<lambda>c. member_id c \<noteq> member_id debtor
                \<and> pairKey (member_id debtor) (member_id c) \<notin> P) cs)))"
  using assms
proof (induction cs arbitrary: P out)
  case Nil
  then show ?case by simp
next
  case (Cons c cs)
  let ?k = "\<lambda>x. pairKey (member_id debtor) (member_id x)"
  have IH: "simplifyInner debts debtor cs (P', out') =
     Inr (P' \<union> {?k x | x. x \<in> set cs \<and> member_id x \<noteq> member_id debtor},
          out' @ concat (map E (filter
             (\<lambda>x. member_id x \<noteq> member_id debtor \<and> ?k x \<notin> P') cs)))" for P' out'
    using Cons.prems by (intro Cons.IH) simp_all
  consider (same) "member_id debtor = member_id c"
    | (seen) "member_id debtor \<noteq> member_id c" "?k c \<in> P"
    | (new) "member_id debtor \<noteq> member_id c" "?k c \<notin> P"
    by blast
  then show ?case
  proof cases
    case same
    have "{?k x | x. x \<in> set (c # cs) \<and> member_id x \<noteq> member_id debtor}
        = {?k x | x. x \<in> set cs \<and> member_id x \<noteq> member_id debtor}"
      using same by auto
    then show ?thesis
      using same IH [of P out] by simp
  next
    case seen
    have "P \<union> {?k x | x. x \<in> set (c # cs) \<and> member_id x \<noteq> member_id debtor}
        = P \<union> {?k x | x. x \<in> set cs \<and> member_id x \<noteq> member_id debtor}"
      using seen by auto
    then show ?thesis
      using seen IH [of P out] by simp
  next
    case new
    have np: "netPair debts debtor c = Inr (E c)"
      using Cons.prems(1) by simp
    have key_ne: "?k x \<noteq> ?k c" if "x \<in> set cs" for x
    proof -
      have "member_id c \<notin> member_id ` set cs"
        using Cons.prems(2) by simp
      then have "member_id x \<noteq> member_id c"
        using that by (metis imageI)
      moreover have "hyphenFree (member_id x)" "hyphenFree (member_id c)"
        using Cons.prems(4) that by simp_all
      ultimately show ?thesis
        using pairKey_eq_iff [of "member_id debtor" "member_id x" "member_id debtor" "member_id c"]
          Cons.prems(3) by (auto simp: doubleton_eq_iff)
    qed
    have filt: "filter (\<lambda>x. member_id x \<noteq> member_id debtor \<and> ?k x \<notin> insert (?k c) P) cs
              = filter (\<lambda>x. member_id x \<noteq> member_id debtor \<and> ?k x \<notin> P) cs"
      by (rule filter_cong) (auto simp: key_ne)
    have sets: "insert (?k c) P \<union> {?k x | x. x \<in> set cs \<and> member_id x \<noteq> member_id debtor}
        = P \<union> {?k x | x. x \<in> set (c # cs) \<and> member_id x \<noteq> member_id debtor}"
      using new by auto
    have "simplifyInner debts debtor (c # cs) (P, out)
        = simplifyInner debts debtor cs (insert (?k c) P, out @ E c)"
      using new np by simp
    also have "\<dots> = Inr (insert (?k c) P \<union>
          {?k x | x. x \<in> set cs \<and> member_id x \<noteq> member_id debtor},
          (out @ E c) @ concat (map E (filter
             (\<lambda>x. member_id x \<noteq> member_id debtor \<and> ?k x \<notin> insert (?k c) P) cs)))"
      by (rule IH)
    finally show ?thesis
      unfolding filt sets using new by simp
  qed
qed

lemma distinct_ids_append:
  assumes "distinct (map member_id (pre @ x # post))"
  shows "\<forall>a\<in>set pre. member_id a \<noteq> member_id x"
    and "\<forall>c\<in>set post. member_id c \<noteq> member_id x"
    and "\<forall>a\<in>set pre. \<forall>c\<in>set post. member_id a \<noteq> member_id c"
  using assms by (auto simp: image_iff)

lemma simplifyOuter_result:
  assumes "members = pre @ ds"
    and "distinct (map member_id members)"
    and "\<forall>m\<in>set members. hyphenFree (member_id m)"
    and "\<forall>a\<in>set members. \<forall>c\<in>set members. netPair debts a c = Inr (E a c)"
  shows "simplifyOuter debts members ds (keysOf pre members, out) =
     Inr (keysOf (pre @ ds) members,
          out @ concat (map (\<lambda>(a, b). E a b) (pairs ds)))"
  using assms(1)
proof (induction ds arbitrary: pre out)
  case Nil
  then show ?case by simp
next
  case (Cons x ds)
  let ?k = "\<lambda>c. pairKey (member_id x) (member_id c)"
  let ?P = "keysOf pre members"
  have mem: "members = pre @ x # ds"
    using Cons.prems .
  have x: "x \<in> set members" and pre: "set pre \<subseteq> set members"
    and ds: "set ds \<subseteq> set members"
    using mem by auto
  have dist: "\<forall>a\<in>set pre. member_id a \<noteq> member_id x"
    "\<forall>c\<in>set ds. member_id c \<noteq> member_id x"
    "\<forall>a\<in>set pre. \<forall>c\<in>set ds. member_id a \<noteq> member_id c"
  proof -
    have d: "distinct (map member_id (pre @ x # ds))"
      using assms(2) unfolding mem .
    show "\<forall>a\<in>set pre. member_id a \<noteq> member_id x"
      by (rule distinct_ids_append(1) [OF d])
    show "\<forall>c\<in>set ds. member_id c \<noteq> member_id x"
      by (rule distinct_ids_append(2) [OF d])
    show "\<forall>a\<in>set pre. \<forall>c\<in>set ds. member_id a \<noteq> member_id c"
      by (rule distinct_ids_append(3) [OF d])
  qed
  have hf: "hyphenFree (member_id m)" if "m \<in> set members" for m
    using assms(3) that by simp
  have inner: "simplifyInner debts x members (?P, out) =
     Inr (?P \<union> {?k c | c. c \<in> set members \<and> member_id c \<noteq> member_id x},
          out @ concat (map (E x) (filter
             (\<lambda>c. member_id c \<noteq> member_id x \<and> ?k c \<notin> ?P) members)))"
    using assms(2,3,4) x by (intro simplifyInner_result) simp_all
  have keys: "?P \<union> {?k c | c. c \<in> set members \<and> member_id c \<noteq> member_id x}
            = keysOf (pre @ [x]) members"
    unfolding keysOf_def by auto
  have f_pre: "filter (\<lambda>c. member_id c \<noteq> member_id x \<and> ?k c \<notin> ?P) pre = []"
  proof -
    have "?k a \<in> ?P" if "a \<in> set pre" for a
    proof -
      have "member_id x \<noteq> member_id a"
        using dist(1) that by metis
      then have "pairKey (member_id a) (member_id x) \<in> ?P"
        unfolding keysOf_def using that x by blast
      then show ?thesis
        by (simp add: pairKey_commute)
    qed
    then show ?thesis
      by (simp add: filter_empty_conv)
  qed
  have f_ds: "filter (\<lambda>c. member_id c \<noteq> member_id x \<and> ?k c \<notin> ?P) ds = ds"
  proof -
    have "?k c \<notin> ?P" if c: "c \<in> set ds" for c
    proof
      assume "?k c \<in> ?P"
      then obtain a b where ab: "a \<in> set pre" "b \<in> set members"
        "?k c = pairKey (member_id a) (member_id b)"
        unfolding keysOf_def by blast
      have "hyphenFree (member_id x)" "hyphenFree (member_id c)"
        "hyphenFree (member_id a)" "hyphenFree (member_id b)"
        using hf x c ds ab(1,2) pre by auto
      then have "{member_id x, member_id c} = {member_id a, member_id b}"
        using ab(3) by (simp add: pairKey_eq_iff)
      then have "member_id a = member_id x \<or> member_id a = member_id c"
        by (auto simp: doubleton_eq_iff)
      then show False
        using dist(1,3) ab(1) c by blast
    qed
    then show ?thesis
      using dist(2) by (simp add: filter_id_conv)
  qed
  have "filter (\<lambda>c. member_id c \<noteq> member_id x \<and> ?k c \<notin> ?P) (pre @ x # ds) = ds"
    using f_pre f_ds by simp
  then have filt: "filter (\<lambda>c. member_id c \<noteq> member_id x \<and> ?k c \<notin> ?P) members = ds"
    using mem by simp
  have "simplifyOuter debts members (x # ds) (?P, out)
      = simplifyOuter debts members ds
          (keysOf (pre @ [x]) members, out @ concat (map (E x) ds))"
    by (simp add: inner keys filt)
  also have "\<dots> = Inr (keysOf ((pre @ [x]) @ ds) members,
          (out @ concat (map (E x) ds)) @ concat (map (\<lambda>(a, b). E a b) (pairs ds)))"
    using mem by (intro Cons.IH) simp
  finally show ?case
    by (simp add: comp_def)
qed

lemma simplifyDebts_refines:
  assumes ag: "agrees (set (map member_id ms)) debts (spec_matrix es ss)"
    and d: "distinct (map member_id ms)"
    and hf: "\<forall>m\<in>set ms. hyphenFree (member_id m)"
  shows "simplifyDebts debts ms = Inr (spec_simplify es ss ms)"
proof -
  have np: "\<forall>a\<in>set ms. \<forall>c\<in>set ms. netPair debts a c = Inr (spec_pairDebt es ss a c)"
    using netPair_agrees [OF ag] by simp
  have k0: "keysOf [] ms = {}"
    by (simp add: keysOf_def)
  have "simplifyOuter debts ms ms (keysOf [] ms, []) =
     Inr (keysOf ([] @ ms) ms,
          [] @ concat (map (\<lambda>(a, b). spec_pairDebt es ss a b) (pairs ms)))"
    using d hf np by (intro simplifyOuter_result) simp_all
  then show ?thesis
    by (simp add: simplifyDebts_def spec_simplify_def k0)
qed

lemma getDetailedDebts_refines:
  assumes "distinct (map member_id ms)"
    and "\<forall>m\<in>set ms. hyphenFree (member_id m)"
    and "resolvable (set (map member_id ms)) es ss"
  shows "getDetailedDebts ms es ss = Inr (spec_simplify es ss ms)"
proof -
  from assms(3) obtain debts where b: "buildDebts ms es ss = Inr debts"
    using buildDebts_ok_iff [of ms es ss] by blast
  have "simplifyDebts debts ms = Inr (spec_simplify es ss ms)"
    using buildDebts_agrees [OF b] assms(1,2) by (rule simplifyDebts_refines)
  then show ?thesis
    by (simp add: getDetailedDebts_def b)
qed

lemma addShares_error:
  "addShares e ps debts = Inl err \<Longrightarrow> err = TypeError"
  by (induction ps arbitrary: debts)
    (auto simp: updateCell_error_iff split: if_splits sum.splits)

lemma addExpenses_error:
  "addExpenses es debts = Inl err \<Longrightarrow> err = TypeError"
  by (induction es arbitrary: debts) (auto split: sum.splits dest: addShares_error)

lemma subtractSettlements_error:
  "subtractSettlements ss debts = Inl err \<Longrightarrow> err = TypeError"
  by (induction ss arbitrary: debts)
    (auto simp: updateCell_error_iff split: sum.splits)

lemma getDetailedDebts_unresolved:
  assumes "\<not> resolvable (set (map member_id ms)) es ss"
  shows "getDetailedDebts ms es ss = Inl TypeError"
proof -
  have "\<not> (\<exists>debts. buildDebts ms es ss = Inr debts)"
    using assms buildDebts_ok_iff [of ms es ss] by simp
  then obtain err where e: "buildDebts ms es ss = Inl err"
    by (cases "buildDebts ms es ss") auto
  then have "err = TypeError"
    by (auto simp: buildDebts_def split: sum.splits
        dest: addExpenses_error subtractSettlements_error)
  with e show ?thesis
    by (simp add: getDetailedDebts_def)
qed

lemma pairs_set: "(a, b) \<in> set (pairs xs) \<Longrightarrow> a \<in> set xs \<and> b \<in> set xs"
  by (induction xs) auto

lemma pairs_keys_differ:
  "distinct (map f xs) \<Longrightarrow> (a, b) \<in> set (pairs xs) \<Longrightarrow> f a \<noteq> f b"
proof (induction xs)
  case Nil
  then show ?case by simp
next
  case (Cons x xs)
  then show ?case
    by (auto simp: image_iff dest: pairs_set)
qed

lemma pairs_total:
  "a \<in> set xs \<Longrightarrow> b \<in> set xs \<Longrightarrow> a \<noteq> b \<Longrightarrow>
     (a, b) \<in> set (pairs xs) \<or> (b, a) \<in> set (pairs xs)"
  by (induction xs) auto

lemma pairs_unordered_distinct:
  "distinct (map f xs) \<Longrightarrow> distinct (map (\<lambda>(a, b). {f a, f b}) (pairs xs))"
proof (induction xs)
  case Nil
  then show ?case by simp
next
  case (Cons x xs)
  have fx: "f x \<notin> f ` set xs" and dx: "distinct (map f xs)"
    using Cons.prems by simp_all
  have 1: "distinct (map (\<lambda>(a, b). {f a, f b}) (map (Pair x) xs))"
  proof -
    have "inj_on (\<lambda>b. {f x, f b}) (set xs)"
      using dx by (auto simp: inj_on_def doubleton_eq_iff distinct_map)
    moreover have "inj_on f (set xs)" "distinct xs"
      using dx by (simp_all add: distinct_map)
    ultimately show ?thesis
      by (simp add: distinct_map comp_def inj_on_def)
  qed
  have 2: "{f x, f b} \<noteq> {f a', f b'}" if "b \<in> set xs" "(a', b') \<in> set (pairs xs)" for b a' b'
  proof -
    have "f a' \<in> f ` set xs" "f b' \<in> f ` set xs"
      using pairs_set [OF that(2)] by simp_all
    then have "f x \<noteq> f a'" "f x \<noteq> f b'"
      using fx by auto
    then show ?thesis
      by (auto simp: doubleton_eq_iff)
  qed
  show ?case
    using 1 2 Cons.IH [OF dx] by (auto simp: comp_def)
qed

lemma spec_net_swap: "spec_net es ss b a = - spec_net es ss a b"
  by (simp add: spec_net_def)

lemma spec_pairDebt_sym: "spec_pairDebt es ss B A = spec_pairDebt es ss A B"
  unfolding spec_pairDebt_def spec_net_swap [of es ss "member_id B" "member_id A"]
  by (auto simp: Let_def)

lemma spec_pairDebt_ends:
  "d \<in> set (spec_pairDebt es ss A B) \<Longrightarrow>
     {debt_from d, debt_to d} = {member_id A, member_id B}"
  by (auto simp: spec_pairDebt_def Let_def split: if_splits)

lemma spec_pairDebt_length: "length (spec_pairDebt es ss A B) \<le> 1"
  by (simp add: spec_pairDebt_def Let_def)

lemma spec_simplify_set:
  "set (spec_simplify es ss ms)
     = (\<Union>(A, B)\<in>set (pairs ms). set (spec_pairDebt es ss A B))"
  by (auto simp: spec_simplify_def)

lemma distinct_concat_keys:
  assumes "distinct (map k xs)"
    and "\<forall>x\<in>set xs. length (g x) \<le> 1 \<and> (\<forall>y\<in>set (g x). h y = k x)"
  shows "distinct (map h (concat (map g xs)))"
  using assms
proof (induction xs)
  case Nil
  then show ?case by simp
next
  case (Cons x xs)
  have len: "length (g x) \<le> 1" and hx: "\<forall>y\<in>set (g x). h y = k x"
    using Cons.prems(2) by simp_all
  have "distinct (map h (g x))"
    using len by (cases "g x") auto
  moreover have "distinct (map h (concat (map g xs)))"
    using Cons.prems by (intro Cons.IH) simp_all
  moreover have "h y \<noteq> h z" if "y \<in> set (g x)" "z \<in> set (concat (map g xs))" for y z
  proof -
    from that(2) obtain x' where x': "x' \<in> set xs" "z \<in> set (g x')"
      by auto
    then have "h z = k x'" using Cons.prems(2) by simp
    moreover have "h y = k x" using hx that(1) by simp
    moreover have "k x \<noteq> k x'" using Cons.prems(1) x'(1) by auto
    ultimately show ?thesis by simp
  qed
  ultimately show ?case
    by auto
qed

lemma spec_simplify_pairs_distinct:
  assumes "distinct (map member_id ms)"
  shows "distinct (map (\<lambda>d. {debt_from d, debt_to d}) (spec_simplify es ss ms))"
  unfolding spec_simplify_def
proof (rule distinct_concat_keys)
  show "distinct (map (\<lambda>(a, b). {member_id a, member_id b}) (pairs ms))"
    using assms by (rule pairs_unordered_distinct)
  show "\<forall>x\<in>set (pairs ms).
          length (case x of (A, B) \<Rightarrow> spec_pairDebt es ss A B) \<le> 1
        \<and> (\<forall>y\<in>set (case x of (A, B) \<Rightarrow> spec_pairDebt es ss A B).
              {debt_from y, debt_to y} = (case x of (a, b) \<Rightarrow> {member_id a, member_id b}))"
    using spec_pairDebt_length [of es ss] by (auto dest: spec_pairDebt_ends)
qed

lemma spec_simplify_no_self:
  assumes "distinct (map member_id ms)" and "d \<in> set (spec_simplify es ss ms)"
  shows "debt_from d \<noteq> debt_to d"
    and "debt_from d \<in> set (map member_id ms)" and "debt_to d \<in> set (map member_id ms)"
proof -
  from assms(2) obtain A B where AB: "(A, B) \<in> set (pairs ms)"
    "d \<in> set (spec_pairDebt es ss A B)"
    by (auto simp: spec_simplify_set)
  have ne: "member_id A \<noteq> member_id B"
    using pairs_keys_differ [OF assms(1) AB(1)] .
  have ends: "{debt_from d, debt_to d} = {member_id A, member_id B}"
    using spec_pairDebt_ends [OF AB(2)] .
  show "debt_from d \<noteq> debt_to d"
    using ne ends by (auto simp: doubleton_eq_iff)
  have "A \<in> set ms" "B \<in> set ms"
    using pairs_set [OF AB(1)] by simp_all
  then have "{member_id A, member_id B} \<subseteq> set (map member_id ms)"
    by auto
  then show "debt_from d \<in> set (map member_id ms)" "debt_to d \<in> set (map member_id ms)"
    using ends by blast+
qed

lemma spec_simplify_pair:
  assumes d: "distinct (map member_id ms)"
    and A: "A \<in> set ms" and B: "B \<in> set ms" and ne: "member_id A \<noteq> member_id B"
  shows "set (spec_pairDebt es ss A B) \<subseteq> set (spec_simplify es ss ms)"
    and "\<forall>x\<in>set (spec_simplify es ss ms).
           {debt_from x, debt_to x} = {member_id A, member_id B}
             \<longrightarrow> x \<in> set (spec_pairDebt es ss A B)"
proof -
  have "A \<noteq> B" using ne by auto
  then have "(A, B) \<in> set (pairs ms) \<or> (B, A) \<in> set (pairs ms)"
    using A B by (rule pairs_total [rotated 2])
  then show "set (spec_pairDebt es ss A B) \<subseteq> set (spec_simplify es ss ms)"
    using spec_pairDebt_sym [of es ss B A] by (auto simp: spec_simplify_set)
  have inj: "inj_on member_id (set ms)"
    using d by (simp add: distinct_map)
  show "\<forall>x\<in>set (spec_simplify es ss ms).
           {debt_from x, debt_to x} = {member_id A, member_id B}
             \<longrightarrow> x \<in> set (spec_pairDebt es ss A B)"
  proof (intro ballI impI)
    fix x assume x: "x \<in> set (spec_simplify es ss ms)"
      and e: "{debt_from x, debt_to x} = {member_id A, member_id B}"
    from x obtain X Y where XY: "(X, Y) \<in> set (pairs ms)" "x \<in> set (spec_pairDebt es ss X Y)"
      by (auto simp: spec_simplify_set)
    have mem: "X \<in> set ms" "Y \<in> set ms"
      using pairs_set [OF XY(1)] by simp_all
    have "{member_id X, member_id Y} = {member_id A, member_id B}"
      using spec_pairDebt_ends [OF XY(2)] e by simp
    then have "(member_id X = member_id A \<and> member_id Y = member_id B)
             \<or> (member_id X = member_id B \<and> member_id Y = member_id A)"
      by (auto simp: doubleton_eq_iff)
    then have "(X = A \<and> Y = B) \<or> (X = B \<and> Y = A)"
      using inj mem A B by (auto simp: inj_on_def)
    then show "x \<in> set (spec_pairDebt es ss A B)"
      using XY(2) spec_pairDebt_sym [of es ss B A] by auto
  qed
qed

lemma distinct_set_singleton:
  "distinct xs \<Longrightarrow> set xs = {x} \<Longrightarrow> xs = [x]"
proof -
  assume d: "distinct xs" and s: "set xs = {x}"
  have "length xs = card (set xs)"
    using d by (simp add: distinct_card)
  then have "length xs = 1"
    using s by simp
  then obtain y where "xs = [y]"
    by (cases xs) auto
  with s show ?thesis by simp
qed

lemma spec_simplify_between:
  assumes d: "distinct (map member_id ms)"
    and A: "A \<in> set ms" and B: "B \<in> set ms" and ne: "member_id A \<noteq> member_id B"
  shows "filter (\<lambda>x. {debt_from x, debt_to x} = {member_id A, member_id B})
           (spec_simplify es ss ms) = spec_pairDebt es ss A B"
proof -
  let ?out = "spec_simplify es ss ms"
  let ?f = "filter (\<lambda>x. {debt_from x, debt_to x} = {member_id A, member_id B}) ?out"
  have "distinct (map (\<lambda>d. {debt_from d, debt_to d}) ?out)"
    using d by (rule spec_simplify_pairs_distinct)
  then have dist: "distinct ?f"
    by (simp add: distinct_map)
  have set_eq: "set ?f = set (spec_pairDebt es ss A B)"
    using spec_simplify_pair [OF d A B ne, of es ss]
    by (auto dest: spec_pairDebt_ends)
  show ?thesis
  proof (cases "spec_pairDebt es ss A B")
    case Nil
    then show ?thesis using set_eq by simp
  next
    case (Cons y ys)
    then have "ys = []"
      using spec_pairDebt_length [of es ss A B] by simp
    then have "set ?f = {y}"
      using set_eq Cons by simp
    then have "?f = [y]"
      using dist by (intro distinct_set_singleton)
    then show ?thesis
      using Cons \<open>ys = []\<close> by simp
  qed
qed

text \<open>
  On every input with pairwise distinct member ids and resolvable references
  \<^verbatim>\<open>getDetailedDebts\<close> returns a list, and the list is what the
  specification's matrix and netting rule prescribe: no self-pair, no
  unordered pair twice, and between two members A and B no entry when the net
  of the specification's matrix is within 0.01 of zero, else exactly the one
  entry from the net debtor to the net creditor with the amount rounded to
  cents.
\<close>

theorem getDetailedDebts_nets_pairs:
  assumes d: "distinct (map member_id ms)"
    and hf: "\<forall>m\<in>set ms. hyphenFree (member_id m)"
    and res: "resolvable (set (map member_id ms)) es ss"
  shows "\<exists>out. getDetailedDebts ms es ss = Inr out
      \<and> (\<forall>x\<in>set out. debt_from x \<noteq> debt_to x)
      \<and> distinct (map (\<lambda>x. {debt_from x, debt_to x}) out)
      \<and> (\<forall>A\<in>set ms. \<forall>B\<in>set ms. member_id A \<noteq> member_id B \<longrightarrow>
           (let net = spec_net es ss (member_id A) (member_id B);
                between = filter (\<lambda>x. {debt_from x, debt_to x} = {member_id A, member_id B}) out
            in if \<bar>net\<bar> \<le> 0.01 then between = []
               else if net > 0 then
                 between = [\<lparr>debt_from = member_id A, debt_fromName = member_name A,
                             debt_to = member_id B, debt_toName = member_name B,
                             debt_amount = Num (round2 net)\<rparr>]
               else
                 between = [\<lparr>debt_from = member_id B, debt_fromName = member_name B,
                             debt_to = member_id A, debt_toName = member_name A,
                             debt_amount = Num (round2 (- net))\<rparr>]))"
proof -
  let ?out = "spec_simplify es ss ms"
  have out: "getDetailedDebts ms es ss = Inr ?out"
    using d hf res by (rule getDetailedDebts_refines)
  have self: "\<forall>x\<in>set ?out. debt_from x \<noteq> debt_to x"
    using spec_simplify_no_self(1) [OF d] by blast
  have dup: "distinct (map (\<lambda>x. {debt_from x, debt_to x}) ?out)"
    using d by (rule spec_simplify_pairs_distinct)
  have pair: "\<forall>A\<in>set ms. \<forall>B\<in>set ms. member_id A \<noteq> member_id B \<longrightarrow>
           (let net = spec_net es ss (member_id A) (member_id B);
                between = filter (\<lambda>x. {debt_from x, debt_to x} = {member_id A, member_id B}) ?out
            in if \<bar>net\<bar> \<le> 0.01 then between = []
               else if net > 0 then
                 between = [\<lparr>debt_from = member_id A, debt_fromName = member_name A,
                             debt_to = member_id B, debt_toName = member_name B,
                             debt_amount = Num (round2 net)\<rparr>]
               else
                 between = [\<lparr>debt_from = member_id B, debt_fromName = member_name B,
                             debt_to = member_id A, debt_toName = member_name A,
                             debt_amount = Num (round2 (- net))\<rparr>])"
  proof (intro ballI impI)
    fix A B assume AB: "A \<in> set ms" "B \<in> set ms" "member_id A \<noteq> member_id B"
    show "let net = spec_net es ss (member_id A) (member_id B);
                between = filter (\<lambda>x. {debt_from x, debt_to x} = {member_id A, member_id B}) ?out
            in if \<bar>net\<bar> \<le> 0.01 then between = []
               else if net > 0 then
                 between = [\<lparr>debt_from = member_id A, debt_fromName = member_name A,
                             debt_to = member_id B, debt_toName = member_name B,
                             debt_amount = Num (round2 net)\<rparr>]
               else
                 between = [\<lparr>debt_from = member_id B, debt_fromName = member_name B,
                             debt_to = member_id A, debt_toName = member_name A,
                             debt_amount = Num (round2 (- net))\<rparr>]"
      unfolding Let_def spec_simplify_between [OF d AB]
      by (simp add: spec_pairDebt_def Let_def)
  qed
  show ?thesis
    using out self dup pair by blast
qed

lemma debts_example_resolvable:
  "resolvable (set (map member_id
       [\<lparr>member_id = ''A'', member_name = ''Ann'', isActive = True\<rparr>,
        \<lparr>member_id = ''B'', member_name = ''Bob'', isActive = True\<rparr>,
        \<lparr>member_id = ''C'', member_name = ''Cy'', isActive = True\<rparr>]))
     [\<lparr>amount = 90, paidBy = ''B'', splitAmong = [''A'', ''B'', ''C''],
       splitType = ''equal'', splitDetails = None, category = None\<rparr>]
     [\<lparr>fromMember = ''C'', toMember = ''B'', settlement_amount = 10\<rparr>]"
  by (simp add: resolvable_def)

theorem getDetailedDebts_nets_pairs_witness:
  "\<exists>out. getDetailedDebts
       [\<lparr>member_id = ''A'', member_name = ''Ann'', isActive = True\<rparr>,
        \<lparr>member_id = ''B'', member_name = ''Bob'', isActive = True\<rparr>,
        \<lparr>member_id = ''C'', member_name = ''Cy'', isActive = True\<rparr>]
       [\<lparr>amount = 90, paidBy = ''B'', splitAmong = [''A'', ''B'', ''C''],
         splitType = ''equal'', splitDetails = None, category = None\<rparr>]
       [\<lparr>fromMember = ''C'', toMember = ''B'', settlement_amount = 10\<rparr>] = Inr out
     \<and> (\<forall>x\<in>set out. debt_from x \<noteq> debt_to x)
     \<and> distinct (map (\<lambda>x. {debt_from x, debt_to x}) out)"
proof -
  let ?ms = "[\<lparr>member_id = ''A'', member_name = ''Ann'', isActive = True\<rparr>,
        \<lparr>member_id = ''B'', member_name = ''Bob'', isActive = True\<rparr>,
        \<lparr>member_id = ''C'', member_name = ''Cy'', isActive = True\<rparr>]"
  have 1: "distinct (map member_id ?ms)"
    by simp
  have 2: "\<forall>m\<in>set ?ms. hyphenFree (member_id m)"
    by (simp add: hyphenFree_def)
  from getDetailedDebts_nets_pairs [OF 1 2 debts_example_resolvable]
  show ?thesis
    by blast
qed

text \<open>
  C2, the defect. A settlement from C to A was recorded and member C was
  removed afterwards (\<^verbatim>\<open>members.remove\<close> only refuses members that occur in
  expenses). The matrix has no row for C, so
  \<^verbatim>\<open>debts[settlement.fromMember][settlement.toMember] -= ...\<close> reads a
  property of \<^verbatim>\<open>undefined\<close>: the query throws a \<^verbatim>\<open>TypeError\<close> instead of
  returning the debt between A and B.
\<close>

theorem getDetailedDebts_dangling_settlement:
  "getDetailedDebts
     [\<lparr>member_id = ''A'', member_name = ''Ann'', isActive = True\<rparr>,
      \<lparr>member_id = ''B'', member_name = ''Bob'', isActive = True\<rparr>]
     [\<lparr>amount = 90, paidBy = ''A'', splitAmong = [''A'', ''B''],
       splitType = ''equal'', splitDetails = None, category = None\<rparr>]
     [\<lparr>fromMember = ''C'', toMember = ''A'', settlement_amount = 10\<rparr>] = Inl TypeError"
  by (simp add: getDetailedDebts_def buildDebts_def initDebts_def initRow_def updateCell_def
      calculateExpenseSplit_def readCell_def)

section \<open>Properties of the summary reporter\<close>

lemma averageExpense_guarded:
  "getGroupSummary grp members [] settlements = Inr s \<Longrightarrow> averageExpense s = Num 0"
  by (auto simp: getGroupSummary_def split: option.splits)

lemma perPersonAverage_unguarded:
  assumes "getGroupSummary grp members expenses settlements = Inr s"
    and "members \<noteq> []" and "filter isActive members = []"
  shows "perPersonAverage s \<in> {PosInfinity, NegInfinity, NaN}"
proof -
  have "js_div x 0 \<in> {PosInfinity, NegInfinity, NaN}" for x
    by (simp add: js_div_def)
  moreover have "perPersonAverage s
      = js_div (fold (\<lambda>e sum. sum + amount e) expenses 0) 0"
    using assms by (auto simp: getGroupSummary_def Let_def split: option.splits)
  ultimately show ?thesis
    by (simp only:)
qed

text \<open>
  C9, the defect. For a group whose only member is inactive and that has one
  expense of 10, the guard \<^verbatim>\<open>members.length > 0\<close> holds while the divisor,
  the number of active members, is 0: \<^verbatim>\<open>perPersonAverage\<close> is
  \<^verbatim>\<open>Infinity\<close>, not 0.
\<close>

theorem perPersonAverage_all_inactive: "map_sum id perPersonAverage
     (getGroupSummary (Some \<lparr>group_name = ''Trip''\<rparr>)
        [\<lparr>member_id = ''A'', member_name = ''Ann'', isActive = False\<rparr>]
        [\<lparr>amount = 10, paidBy = ''A'', splitAmong = [''A''],
          splitType = ''equal'', splitDetails = None, category = None\<rparr>]
        []) = Inr PosInfinity"
  by (simp add: getGroupSummary_def js_div_def)

end
